theory Spec2Isabelle
  imports Complex_Main "HOL-Library.Word" "HOL-Library.Sublist"
begin

unbundle bit_operations_syntax

section \<open>Data model\<close>

type_synonym u8 = "8 word"
type_synonym u16 = "16 word"
type_synonym u64 = "64 word"

text \<open>
  Modelled from the spec: the AST node (\<^verbatim>\<open>Node.hpp\<close> is not among the sources). A node is
  one of \<^verbatim>\<open>Symbol\<close>, \<^verbatim>\<open>Capture\<close>, \<^verbatim>\<open>GetField\<close>, \<^verbatim>\<open>Keyword\<close>, \<^verbatim>\<open>String\<close>,
  \<^verbatim>\<open>Number\<close> and \<^verbatim>\<open>List\<close>. The source location a node carries is not a field of its
  own: an error that reports a node carries the node. A \<^verbatim>\<open>double\<close> is idealised as a real.
\<close>

datatype keyword =
  K_If | K_Let | K_Mut | K_Set | K_Fun | K_Begin | K_While | K_Import | K_Quote | K_Del

datatype node =
    Symbol string
  | Capture string
  | GetField string
  | Keyword keyword
  | String string
  | Number real
  | List "node list"

datatype NodeType =
  NT_Symbol | NT_Capture | NT_GetField | NT_Keyword | NT_String | NT_Number | NT_List

fun nodeType :: "node \<Rightarrow> NodeType" where
  "nodeType (Symbol _) = NT_Symbol"
| "nodeType (Capture _) = NT_Capture"
| "nodeType (GetField _) = NT_GetField"
| "nodeType (Keyword _) = NT_Keyword"
| "nodeType (String _) = NT_String"
| "nodeType (Number _) = NT_Number"
| "nodeType (List _) = NT_List"

text \<open>
  Every exception and every undefined behaviour of the C++ is a value. The first seven are the
  \<^verbatim>\<open>CompilationError\<close>s of \<^verbatim>\<open>Compiler.cpp\<close>, named after their messages; those with a
  node are raised by \<^verbatim>\<open>throwCompilerError(message, node)\<close>. The others are what C++ leaves
  undefined or answers with a library exception: an index outside a vector (\<open>OutOfRange\<close>),
  \<^verbatim>\<open>string()\<close> or \<^verbatim>\<open>keyword()\<close> of a node that holds none (\<open>BadVariantAccess\<close>),
  \<^verbatim>\<open>value()\<close> of an empty optional (\<open>BadOptionalAccess\<close>), and the 16-bit loop index of
  \<^verbatim>\<open>compileSpecific\<close> decremented below zero (\<open>IndexWrapped\<close>).
\<close>

datatype error =
    SpecificArity string  \<comment> \<open>can not use NAME with less than 2 arguments\<close>
  | ValueTypeNotHandled  \<comment> \<open>trying to put a value in the value table, but the type isn't handled\<close>
  | CannotCapture string node  \<comment> \<open>Can not capture NAME because it is referencing an unbound variable\<close>
  | ChainedExpression nat string node
      \<comment> \<open>can not create a chained expression (of length N) for operator NAME\<close>
  | TooManySymbols node  \<comment> \<open>Too many symbols (exceeds 65'536), aborting compilation\<close>
  | TooManyValues node  \<comment> \<open>Too many values (exceeds 65'536), aborting compilation\<close>
  | UnboundVariable node  \<comment> \<open>Unbound variable error (variable is used but not defined)\<close>
  | OutOfRange
  | BadVariantAccess
  | BadOptionalAccess
  | IndexWrapped

fun is_CompilationError :: "error \<Rightarrow> bool" where
  "is_CompilationError (SpecificArity _) = True"
| "is_CompilationError ValueTypeNotHandled = True"
| "is_CompilationError (CannotCapture _ _) = True"
| "is_CompilationError (ChainedExpression _ _ _) = True"
| "is_CompilationError (TooManySymbols _) = True"
| "is_CompilationError (TooManyValues _) = True"
| "is_CompilationError (UnboundVariable _) = True"
| "is_CompilationError _ = False"

text \<open>Sequencing of two steps, the second of which runs only when the first did not fail.\<close>

definition rbind :: "error + 'a \<Rightarrow> ('a \<Rightarrow> error + 'b) \<Rightarrow> error + 'b" where
  "rbind m f = (case m of Inl e \<Rightarrow> Inl e | Inr v \<Rightarrow> f v)"

text \<open>\<^verbatim>\<open>v[i]\<close> on a \<^verbatim>\<open>std::vector\<close>: undefined outside the vector.\<close>

definition vec_at :: "'a list \<Rightarrow> nat \<Rightarrow> error + 'a" where
  "vec_at xs i = (if i < length xs then Inr (xs ! i) else Inl OutOfRange)"

text \<open>\<^verbatim>\<open>Node::constList()\<close>: the children; a node that is not a list has none.\<close>

fun constList :: "node \<Rightarrow> node list" where
  "constList (List xs) = xs"
| "constList _ = []"

text \<open>\<^verbatim>\<open>Node::string()\<close>: the string a node holds, when it holds one.\<close>

fun node_string :: "node \<Rightarrow> error + string" where
  "node_string (Symbol n) = Inr n"
| "node_string (Capture n) = Inr n"
| "node_string (GetField n) = Inr n"
| "node_string (String n) = Inr n"
| "node_string _ = Inl BadVariantAccess"

text \<open>\<^verbatim>\<open>Node::keyword()\<close>.\<close>

fun node_keyword :: "node \<Rightarrow> error + keyword" where
  "node_keyword (Keyword k) = Inr k"
| "node_keyword _ = Inl BadVariantAccess"

text \<open>
  Modelled from the spec: an entry of the constant table (\<^verbatim>\<open>CValue.hpp\<close> is not among the
  sources), tagged \<^verbatim>\<open>Number\<close>, \<^verbatim>\<open>String\<close> or \<^verbatim>\<open>PageAddr\<close>, with structural equality. A
  node that is neither a number nor a string has no entry.
\<close>

datatype ValTableElem = Val_Number real | Val_String string | Val_PageAddr nat

fun ValTableElem_of_node :: "node \<Rightarrow> error + ValTableElem" where
  "ValTableElem_of_node (Number d) = Inr (Val_Number d)"
| "ValTableElem_of_node (String t) = Inr (Val_String t)"
| "ValTableElem_of_node _ = Inl ValueTypeNotHandled"

text \<open>
  What the compiler takes from files that are not among the sources, and from libraries: the
  values of the \<^verbatim>\<open>Instruction\<close> enumeration (\<^verbatim>\<open>Instructions.hpp\<close>), the operator and
  builtin name tables, \<^verbatim>\<open>isSpecific\<close> (\<^verbatim>\<open>Compiler.inl\<close>), the version macros, the clock,
  \<^verbatim>\<open>std::to_string\<close> on a double, \<^verbatim>\<open>std::filesystem::path::stem\<close> and
  \<^verbatim>\<open>picosha2::hash256\<close>.
\<close>

record env =
  HALT :: u8
  LOAD_SYMBOL :: u8
  LOAD_CONST :: u8
  POP_JUMP_IF_TRUE :: u8
  STORE :: u8
  LET :: u8
  POP_JUMP_IF_FALSE :: u8
  JUMP :: u8
  RET :: u8
  CALL :: u8
  CAPTURE :: u8
  BUILTIN :: u8
  MUT :: u8
  DEL :: u8
  GET_FIELD :: u8
  PLUGIN :: u8
  LIST :: u8
  APPEND :: u8
  CONCAT :: u8
  APPEND_IN_PLACE :: u8
  CONCAT_IN_PLACE :: u8
  FIRST_OPERATOR :: u8
  ADD :: u8
  SUB :: u8
  MUL :: u8
  DIV :: u8
  MOD :: u8
  AND_inst :: u8
  OR_inst :: u8
  CODE_SEGMENT_START :: u8
  SYM_TABLE_START :: u8
  VAL_TABLE_START :: u8
  NUMBER_TYPE :: u8
  STRING_TYPE :: u8
  FUNC_TYPE :: u8
  operators :: "string list"
  builtins :: "string list"
  isSpecific :: "string \<Rightarrow> u8 option"
  ARK_VERSION_MAJOR :: u16
  ARK_VERSION_MINOR :: u16
  ARK_VERSION_PATCH :: u16
  timestamp :: u64
  to_string :: "real \<Rightarrow> string"
  stem :: "string \<Rightarrow> string"
  hash256 :: "u8 list \<Rightarrow> u8 list"

text \<open>The members of \<^verbatim>\<open>class Compiler\<close> that compilation reads and writes.\<close>

record compiler =
  m_symbols :: "node list"
  m_defined_symbols :: "string list"
  m_plugins :: "string list"
  m_values :: "ValTableElem list"
  m_code_pages :: "u8 list list"
  m_temp_pages :: "u8 list list"
  m_bytecode :: "u8 list"

definition new_compiler :: compiler where
  "new_compiler = \<lparr>m_symbols = [], m_defined_symbols = [], m_plugins = [], m_values = [],
     m_code_pages = [], m_temp_pages = [], m_bytecode = []\<rparr>"

section \<open>Pages and numbers\<close>

text \<open>
  Modelled from the spec: \<^verbatim>\<open>page(i)\<close> (\<^verbatim>\<open>Compiler.inl\<close> is not among the sources). A
  non-negative index is a final page, a negative index \<open>i\<close> is the temporary page \<open>- i - 1\<close>.
\<close>

definition page :: "int \<Rightarrow> compiler \<Rightarrow> error + u8 list" where
  "page i s = (if 0 \<le> i then vec_at (m_code_pages s) (nat i)
               else vec_at (m_temp_pages s) (nat (- i - 1)))"

definition set_page :: "int \<Rightarrow> u8 list \<Rightarrow> compiler \<Rightarrow> compiler" where
  "set_page i bs s = (if 0 \<le> i then s\<lparr>m_code_pages := (m_code_pages s)[nat i := bs]\<rparr>
                      else s\<lparr>m_temp_pages := (m_temp_pages s)[nat (- i - 1) := bs]\<rparr>)"

text \<open>\<^verbatim>\<open>page(p).emplace_back(inst)\<close>\<close>

definition emplace_back :: "int \<Rightarrow> u8 \<Rightarrow> compiler \<Rightarrow> error + compiler" where
  "emplace_back p inst s = rbind (page p s) (\<lambda>bs. Inr (set_page p (bs @ [inst]) s))"

text \<open>\<^verbatim>\<open>page(p).size()\<close>\<close>

definition page_size :: "int \<Rightarrow> compiler \<Rightarrow> error + nat" where
  "page_size p s = rbind (page p s) (\<lambda>bs. Inr (length bs))"

text \<open>The two bytes \<^verbatim>\<open>(n & 0xff00) >> 8\<close> and \<^verbatim>\<open>n & 0x00ff\<close>.\<close>

definition number_bytes :: "u16 \<Rightarrow> u8 list" where
  "number_bytes n = [ucast (drop_bit 8 (n AND 0xff00)), ucast (n AND 0x00ff)]"

text \<open>\<^verbatim>\<open>pushNumber(n, page)\<close>; without a page (\<^verbatim>\<open>nullptr\<close>) the bytes go to the bytecode.\<close>

definition pushNumber :: "u16 \<Rightarrow> int option \<Rightarrow> compiler \<Rightarrow> error + compiler" where
  "pushNumber n pg s =
     (case pg of
        None \<Rightarrow> Inr (s\<lparr>m_bytecode := m_bytecode s @ number_bytes n\<rparr>)
      | Some p \<Rightarrow> rbind (page p s) (\<lambda>bs. Inr (set_page p (bs @ number_bytes n) s)))"

text \<open>
  The back-patch \<^verbatim>\<open>page(p)[pos] = (uint16_t(page(p).size()) & 0xff00) >> 8;
  page(p)[pos + 1] = uint16_t(page(p).size()) & 0x00ff\<close>.
\<close>

definition patch_jump :: "int \<Rightarrow> nat \<Rightarrow> compiler \<Rightarrow> error + compiler" where
  "patch_jump p pos s =
     rbind (page p s) (\<lambda>bs.
       if pos + 1 < length bs
       then Inr (set_page p (bs[pos := number_bytes (of_nat (length bs)) ! 0,
                                pos + 1 := number_bytes (of_nat (length bs)) ! 1]) s)
       else Inl OutOfRange)"

section \<open>Tables\<close>

text \<open>
  The \<^verbatim>\<open>std::find_if\<close> of \<^verbatim>\<open>addSymbol\<close>: the position of the first entry whose string is
  the string of \<open>symb\<close>.
\<close>

fun find_symbol :: "node list \<Rightarrow> node \<Rightarrow> error + nat option" where
  "find_symbol [] symb = Inr None"
| "find_symbol (sym_node # rest) symb =
     rbind (node_string sym_node) (\<lambda>a.
     rbind (node_string symb) (\<lambda>b.
       if a = b then Inr (Some 0)
       else rbind (find_symbol rest symb) (\<lambda>r. Inr (map_option Suc r))))"

definition addSymbol :: "node \<Rightarrow> compiler \<Rightarrow> error + (u16 \<times> compiler)" where
  "addSymbol symb s =
     rbind (find_symbol (m_symbols s) symb) (\<lambda>it.
       let s' = (case it of None \<Rightarrow> s\<lparr>m_symbols := m_symbols s @ [symb]\<rparr> | Some _ \<Rightarrow> s);
           distance = (case it of None \<Rightarrow> length (m_symbols s) | Some i \<Rightarrow> i)
       in if distance < 65535 then Inr (of_nat distance, s')
          else Inl (TooManySymbols symb))"

text \<open>\<^verbatim>\<open>std::find\<close>: the position of the first element equal to \<open>v\<close>.\<close>

fun find_pos :: "'a list \<Rightarrow> 'a \<Rightarrow> nat option" where
  "find_pos [] v = None"
| "find_pos (a # rest) v = (if a = v then Some 0 else map_option Suc (find_pos rest v))"

definition addValue_elem :: "ValTableElem \<Rightarrow> node \<Rightarrow> compiler \<Rightarrow> error + (u16 \<times> compiler)" where
  "addValue_elem v x s =
     (let it = find_pos (m_values s) v;
          s' = (case it of None \<Rightarrow> s\<lparr>m_values := m_values s @ [v]\<rparr> | Some _ \<Rightarrow> s);
          distance = (case it of None \<Rightarrow> length (m_values s) | Some i \<Rightarrow> i)
      in if distance < 65535 then Inr (of_nat distance, s')
         else Inl (TooManyValues x))"

text \<open>\<^verbatim>\<open>addValue(const Node& x)\<close>\<close>

definition addValue :: "node \<Rightarrow> compiler \<Rightarrow> error + (u16 \<times> compiler)" where
  "addValue x s = rbind (ValTableElem_of_node x) (\<lambda>v. addValue_elem v x s)"

text \<open>\<^verbatim>\<open>addValue(std::size_t page_id, const Node& current)\<close>\<close>

definition addValue_page :: "nat \<Rightarrow> node \<Rightarrow> compiler \<Rightarrow> error + (u16 \<times> compiler)" where
  "addValue_page page_id current s = addValue_elem (Val_PageAddr page_id) current s"

definition addDefinedSymbol :: "string \<Rightarrow> compiler \<Rightarrow> compiler" where
  "addDefinedSymbol symb s =
     (if symb \<in> set (m_defined_symbols s) then s
      else s\<lparr>m_defined_symbols := m_defined_symbols s @ [symb]\<rparr>)"

text \<open>
  Modelled from the spec: \<^verbatim>\<open>Utils::splitString(name, ':')[0]\<close> (\<^verbatim>\<open>Utils.hpp\<close> is not among
  the sources) is the substring before the first colon.
\<close>

definition splitString_first :: "string \<Rightarrow> string" where
  "splitString_first name = takeWhile (\<lambda>c. c \<noteq> CHR '':'') name"

definition mayBeFromPlugin :: "env \<Rightarrow> string \<Rightarrow> compiler \<Rightarrow> bool" where
  "mayBeFromPlugin E name s =
     (let splitted = splitString_first name
      in \<exists>plugin \<in> set (m_plugins s). stem E plugin = splitted)"

fun checkForUndefinedSymbol_loop :: "env \<Rightarrow> node list \<Rightarrow> compiler \<Rightarrow> error + unit" where
  "checkForUndefinedSymbol_loop E [] s = Inr ()"
| "checkForUndefinedSymbol_loop E (symb # rest) s =
     rbind (node_string symb) (\<lambda>str.
       let is_plugin = mayBeFromPlugin E str s
       in if str \<notin> set (m_defined_symbols s) \<and> \<not> is_plugin
          then Inl (UnboundVariable symb)
          else checkForUndefinedSymbol_loop E rest s)"

definition checkForUndefinedSymbol :: "env \<Rightarrow> compiler \<Rightarrow> error + unit" where
  "checkForUndefinedSymbol E s = checkForUndefinedSymbol_loop E (m_symbols s) s"

text \<open>\<^verbatim>\<open>countArkObjects\<close>: the nodes that are not \<^verbatim>\<open>GetField\<close>.\<close>

definition countArkObjects :: "node list \<Rightarrow> nat" where
  "countArkObjects lst = length (filter (\<lambda>n. nodeType n \<noteq> NT_GetField) lst)"

definition isOperator :: "env \<Rightarrow> string \<Rightarrow> nat option" where
  "isOperator E name = find_pos (operators E) name"

definition isBuiltin :: "env \<Rightarrow> string \<Rightarrow> nat option" where
  "isBuiltin E name = find_pos (builtins E) name"

text \<open>\<^verbatim>\<open>std::optional::value()\<close>\<close>

definition opt_value :: "'a option \<Rightarrow> error + 'a" where
  "opt_value v = (case v of None \<Rightarrow> Inl BadOptionalAccess | Some a \<Rightarrow> Inr a)"

section \<open>Lowering\<close>

lemma rbind_cong [fundef_cong]:
  "m = m' \<Longrightarrow> (\<And>v. m' = Inr v \<Longrightarrow> f v = f' v) \<Longrightarrow> rbind m f = rbind m' f'"
  by (auto simp: rbind_def split: sum.splits)

lemma vec_at_size [termination_simp]:
  "vec_at (constList x) i = Inr c \<Longrightarrow> size c < size x"
proof (cases x)
  case (List xs)
  assume "vec_at (constList x) i = Inr c"
  with List have "c \<in> set xs" by (auto simp: vec_at_def split: if_splits)
  then have "size c \<le> size_list size xs" by (rule size_list_estimation') simp
  with List show ?thesis by simp
qed (auto simp: vec_at_def)

definition compileSymbol :: "env \<Rightarrow> node \<Rightarrow> int \<Rightarrow> compiler \<Rightarrow> error + compiler" where
  "compileSymbol E x p s =
     rbind (node_string x) (\<lambda>name.
       case isBuiltin E name of
         Some it_builtin \<Rightarrow>
           rbind (emplace_back p (BUILTIN E) s) (\<lambda>s1.
             pushNumber (of_nat it_builtin) (Some p) s1)
       | None \<Rightarrow>
          (case isOperator E name of
             Some it_operator \<Rightarrow> emplace_back p (FIRST_OPERATOR E + of_nat it_operator) s
           | None \<Rightarrow>
               rbind (addSymbol x s) (\<lambda>(i, s1).
               rbind (emplace_back p (LOAD_SYMBOL E) s1) (\<lambda>s2.
                 pushNumber i (Some p) s2))))"

definition pushSpecificInstArgc :: "env \<Rightarrow> u8 \<Rightarrow> u16 \<Rightarrow> int \<Rightarrow> compiler \<Rightarrow> error + compiler" where
  "pushSpecificInstArgc E inst previous p s =
     (if inst = LIST E then pushNumber previous (Some p) s
      else if inst = APPEND E \<or> inst = APPEND_IN_PLACE E \<or>
              inst = CONCAT E \<or> inst = CONCAT_IN_PLACE E
      then pushNumber (previous - 1) (Some p) s
      else Inr s)"

fun skip_fields :: "node list \<Rightarrow> nat \<Rightarrow> error + nat" where
  "skip_fields xs 0 =
     rbind (vec_at xs 0) (\<lambda>c. if nodeType c = NT_GetField then Inl IndexWrapped else Inr 0)"
| "skip_fields xs (Suc j) =
     rbind (vec_at xs (Suc j)) (\<lambda>c.
       if nodeType c = NT_GetField then skip_fields xs j else Inr (Suc j))"

fun compileFunction_captures :: "env \<Rightarrow> node list \<Rightarrow> int \<Rightarrow> compiler \<Rightarrow> error + compiler" where
  "compileFunction_captures E [] p s = Inr s"
| "compileFunction_captures E (it # rest) p s =
     (if nodeType it = NT_Capture then
        rbind (node_string it) (\<lambda>name.
          if name \<notin> set (m_defined_symbols s) then Inl (CannotCapture name it)
          else
            rbind (emplace_back p (CAPTURE E) s) (\<lambda>s1.
            rbind (addSymbol it (addDefinedSymbol name s1)) (\<lambda>(var_id, s2).
            rbind (pushNumber var_id (Some p) s2) (\<lambda>s3.
              compileFunction_captures E rest p s3))))
      else compileFunction_captures E rest p s)"

fun compileFunction_args :: "env \<Rightarrow> node list \<Rightarrow> nat \<Rightarrow> compiler \<Rightarrow> error + compiler" where
  "compileFunction_args E [] page_id s = Inr s"
| "compileFunction_args E (it # rest) page_id s =
     (if nodeType it = NT_Symbol then
        rbind (emplace_back (int page_id) (MUT E) s) (\<lambda>s1.
        rbind (addSymbol it s1) (\<lambda>(var_id, s2).
        rbind (node_string it) (\<lambda>name.
        rbind (pushNumber var_id (Some (int page_id)) (addDefinedSymbol name s2)) (\<lambda>s3.
          compileFunction_args E rest page_id s3))))
      else compileFunction_args E rest page_id s)"

definition compilePluginImport :: "env \<Rightarrow> node \<Rightarrow> int \<Rightarrow> compiler \<Rightarrow> error + compiler" where
  "compilePluginImport E x p s =
     rbind (vec_at (constList x) 1) (\<lambda>c1.
     rbind (addValue c1 s) (\<lambda>(id, s1).
     rbind (node_string c1) (\<lambda>name.
     rbind (emplace_back p (PLUGIN E) (s1\<lparr>m_plugins := m_plugins s1 @ [name]\<rparr>)) (\<lambda>s2.
       pushNumber id (Some p) s2))))"

definition compileDel :: "env \<Rightarrow> node \<Rightarrow> int \<Rightarrow> compiler \<Rightarrow> error + compiler" where
  "compileDel E x p s =
     rbind (vec_at (constList x) 1) (\<lambda>c1.
     rbind (addSymbol c1 s) (\<lambda>(i, s1).
     rbind (emplace_back p (DEL E) s1) (\<lambda>s2.
       pushNumber i (Some p) s2)))"

definition emplace_page :: "compiler \<Rightarrow> compiler" where
  "emplace_page s = s\<lparr>m_code_pages := m_code_pages s @ [[]]\<rparr>"

definition emplace_temp_page :: "compiler \<Rightarrow> compiler" where
  "emplace_temp_page s = s\<lparr>m_temp_pages := m_temp_pages s @ [[]]\<rparr>"

definition temp_back :: "compiler \<Rightarrow> error + u8 list" where
  "temp_back s = (if m_temp_pages s = [] then Inl OutOfRange else Inr (last (m_temp_pages s)))"

definition temp_pop_back :: "compiler \<Rightarrow> error + compiler" where
  "temp_pop_back s =
     (if m_temp_pages s = [] then Inl OutOfRange
      else Inr (s\<lparr>m_temp_pages := butlast (m_temp_pages s)\<rparr>))"

definition push_temp_back :: "int \<Rightarrow> compiler \<Rightarrow> error + compiler" where
  "push_temp_back p s =
     rbind (temp_back s) (\<lambda>tmp.
     rbind (page p s) (\<lambda>bs.
       if p = - int (length (m_temp_pages s)) then Inl OutOfRange
       else Inr (set_page p (bs @ tmp) s)))"

definition operator_name :: "env \<Rightarrow> u8 \<Rightarrow> error + string" where
  "operator_name E op_inst =
     (if FIRST_OPERATOR E \<le> op_inst
      then vec_at (operators E) (unat op_inst - unat (FIRST_OPERATOR E))
      else Inl OutOfRange)"

definition is_argument :: "node \<Rightarrow> bool" where
  "is_argument n = (nodeType n \<noteq> NT_GetField \<and> nodeType n \<noteq> NT_Capture)"

lemma skip_fields_le: "skip_fields xs i = Inr j \<Longrightarrow> j \<le> i"
  by (induction xs i rule: skip_fields.induct)
     (auto simp: rbind_def le_Suc_eq split: sum.splits if_splits)

text \<open>
  The condition \<^verbatim>\<open>c0.nodeType() == NodeType::Symbol && isSpecific(c0.string()).has_value()\<close>.
\<close>

definition names_specific :: "env \<Rightarrow> node \<Rightarrow> bool" where
  "names_specific E c0 =
     (nodeType c0 = NT_Symbol \<and>
      (case node_string c0 of Inr name \<Rightarrow> isSpecific E name \<noteq> None | Inl _ \<Rightarrow> False))"

text \<open>
  The recursive lowering. \<open>compile_node\<close> is \<^verbatim>\<open>_compile\<close>; \<open>compile_range E x i k\<close> is a
  loop \<^verbatim>\<open>for (; i < k; ++i) _compile(x.constList()[i], p)\<close>; the functions whose names end
  in \<open>_loop\<close>, \<open>_fields\<close> and \<open>_operator\<close> are the loops of the function they are named
  after.
\<close>

function (sequential)
    compile_node :: "env \<Rightarrow> node \<Rightarrow> int \<Rightarrow> compiler \<Rightarrow> error + compiler"
and compile_range :: "env \<Rightarrow> node \<Rightarrow> nat \<Rightarrow> nat \<Rightarrow> int \<Rightarrow> compiler \<Rightarrow> error + compiler"
and compileSpecific :: "env \<Rightarrow> node \<Rightarrow> node \<Rightarrow> int \<Rightarrow> compiler \<Rightarrow> error + compiler"
and compileSpecific_loop :: "env \<Rightarrow> node \<Rightarrow> nat \<Rightarrow> int \<Rightarrow> compiler \<Rightarrow> error + compiler"
and compileIf :: "env \<Rightarrow> node \<Rightarrow> int \<Rightarrow> compiler \<Rightarrow> error + compiler"
and compileFunction :: "env \<Rightarrow> node \<Rightarrow> int \<Rightarrow> compiler \<Rightarrow> error + compiler"
and compileLetMut :: "env \<Rightarrow> keyword \<Rightarrow> node \<Rightarrow> int \<Rightarrow> compiler \<Rightarrow> error + compiler"
and compileWhile :: "env \<Rightarrow> node \<Rightarrow> int \<Rightarrow> compiler \<Rightarrow> error + compiler"
and compileSet :: "env \<Rightarrow> node \<Rightarrow> int \<Rightarrow> compiler \<Rightarrow> error + compiler"
and compileQuote :: "env \<Rightarrow> node \<Rightarrow> int \<Rightarrow> compiler \<Rightarrow> error + compiler"
and handleCalls :: "env \<Rightarrow> node \<Rightarrow> int \<Rightarrow> compiler \<Rightarrow> error + compiler"
and handleCalls_fields :: "env \<Rightarrow> node \<Rightarrow> nat \<Rightarrow> int \<Rightarrow> compiler \<Rightarrow> error + (nat \<times> compiler)"
and handleCalls_operator ::
      "env \<Rightarrow> node \<Rightarrow> u8 \<Rightarrow> nat \<Rightarrow> nat \<Rightarrow> int \<Rightarrow> compiler \<Rightarrow> error + (nat \<times> compiler)"
and putValue :: "env \<Rightarrow> node \<Rightarrow> int \<Rightarrow> compiler \<Rightarrow> error + compiler"
where
  "compile_node E x p s =
     (if nodeType x = NT_Symbol then compileSymbol E x p s
      else if nodeType x = NT_GetField then
        rbind (addSymbol x s) (\<lambda>(i, s1).
        rbind (emplace_back p (GET_FIELD E) s1) (\<lambda>s2.
          pushNumber i (Some p) s2))
      else if nodeType x = NT_String \<or> nodeType x = NT_Number then
        rbind (addValue x s) (\<lambda>(i, s1).
        rbind (emplace_back p (LOAD_CONST E) s1) (\<lambda>s2.
          pushNumber i (Some p) s2))
      else if constList x = [] then
        rbind (emplace_back p (BUILTIN E) s) (\<lambda>s1.
        rbind (opt_value (isBuiltin E ''nil'')) (\<lambda>it_builtin.
          pushNumber (of_nat it_builtin) (Some p) s1))
      else
        rbind (vec_at (constList x) 0) (\<lambda>c0.
          if names_specific E c0 then compileSpecific E c0 x p s
          else if nodeType c0 = NT_Keyword then
            rbind (node_keyword c0) (\<lambda>n.
              case n of
                K_If \<Rightarrow> compileIf E x p s
              | K_Set \<Rightarrow> compileSet E x p s
              | K_Let \<Rightarrow> compileLetMut E n x p s
              | K_Mut \<Rightarrow> compileLetMut E n x p s
              | K_Fun \<Rightarrow> compileFunction E x p s
              | K_Begin \<Rightarrow> compile_range E x 1 (length (constList x)) p s
              | K_While \<Rightarrow> compileWhile E x p s
              | K_Import \<Rightarrow> compilePluginImport E x p s
              | K_Quote \<Rightarrow> compileQuote E x p s
              | K_Del \<Rightarrow> compileDel E x p s)
          else handleCalls E x p s))"
| "compile_range E x i k p s =
     (if i < k then
        rbind (vec_at (constList x) i) (\<lambda>c.
        rbind (compile_node E c p s) (\<lambda>s1.
          compile_range E x (i + 1) k p s1))
      else Inr s)"
| "compileSpecific E c0 x p s =
     rbind (node_string c0) (\<lambda>name.
     rbind (opt_value (isSpecific E name)) (\<lambda>inst.
       let argc = (of_nat (countArkObjects (constList x)) - 1 :: u16)
       in if argc < 2 \<and> inst \<noteq> LIST E then Inl (SpecificArity name)
          else
            rbind (compileSpecific_loop E x
                     (unat (of_nat (length (constList x)) - 1 :: u16)) p s) (\<lambda>s1.
            rbind (emplace_back p inst s1) (\<lambda>s2.
              pushSpecificInstArgc E inst argc p s2))))"
| "compileSpecific_loop E x i p s =
     (if 0 < i then
        rbind (skip_fields (constList x) i) (\<lambda>j.
        rbind (compile_range E x j i p s) (\<lambda>s1.
        rbind (vec_at (constList x) i) (\<lambda>c.
        rbind (compile_node E c p s1) (\<lambda>s2.
          if j = 0 then Inl IndexWrapped
          else compileSpecific_loop E x (j - 1) p s2))))
      else Inr s)"
| "compileIf E x p s =
     rbind (vec_at (constList x) 1) (\<lambda>cond.
     rbind (compile_node E cond p s) (\<lambda>s1.
     rbind (emplace_back p (POP_JUMP_IF_TRUE E) s1) (\<lambda>s2.
     rbind (page_size p s2) (\<lambda>jump_to_if_pos.
     rbind (pushNumber 0 (Some p) s2) (\<lambda>s3.
     rbind (if length (constList x) = 4
            then rbind (vec_at (constList x) 3) (\<lambda>els. compile_node E els p s3)
            else Inr s3) (\<lambda>s4.
     rbind (emplace_back p (JUMP E) s4) (\<lambda>s5.
     rbind (page_size p s5) (\<lambda>jump_to_end_pos.
     rbind (pushNumber 0 (Some p) s5) (\<lambda>s6.
     rbind (patch_jump p jump_to_if_pos s6) (\<lambda>s7.
     rbind (vec_at (constList x) 2) (\<lambda>thn.
     rbind (compile_node E thn p s7) (\<lambda>s8.
       patch_jump p jump_to_end_pos s8))))))))))))"
| "compileFunction E x p s =
     rbind (vec_at (constList x) 1) (\<lambda>args.
     rbind (compileFunction_captures E (constList args) p s) (\<lambda>s1.
       let s2 = emplace_page s1;
           page_id = length (m_code_pages s2) - 1
       in
         rbind (emplace_back p (LOAD_CONST E) s2) (\<lambda>s3.
         rbind (addValue_page page_id x s3) (\<lambda>(id, s4).
         rbind (pushNumber id (Some p) s4) (\<lambda>s5.
         rbind (compileFunction_args E (constList args) page_id s5) (\<lambda>s6.
         rbind (vec_at (constList x) 2) (\<lambda>body.
         rbind (compile_node E body (int page_id) s6) (\<lambda>s7.
           emplace_back (int page_id) (RET E) s7))))))))"
| "compileLetMut E n x p s =
     rbind (vec_at (constList x) 1) (\<lambda>c1.
     rbind (node_string c1) (\<lambda>name.
     rbind (addSymbol c1 s) (\<lambda>(i, s1).
     rbind (putValue E x p (addDefinedSymbol name s1)) (\<lambda>s2.
     rbind (emplace_back p (if n = K_Let then LET E else MUT E) s2) (\<lambda>s3.
       pushNumber i (Some p) s3)))))"
| "compileWhile E x p s =
     rbind (page_size p s) (\<lambda>current.
     rbind (vec_at (constList x) 1) (\<lambda>cond.
     rbind (compile_node E cond p s) (\<lambda>s1.
     rbind (emplace_back p (POP_JUMP_IF_FALSE E) s1) (\<lambda>s2.
     rbind (page_size p s2) (\<lambda>jump_to_end_pos.
     rbind (pushNumber 0 (Some p) s2) (\<lambda>s3.
     rbind (vec_at (constList x) 2) (\<lambda>body.
     rbind (compile_node E body p s3) (\<lambda>s4.
     rbind (emplace_back p (JUMP E) s4) (\<lambda>s5.
     rbind (pushNumber (of_nat current) (Some p) s5) (\<lambda>s6.
       patch_jump p jump_to_end_pos s6))))))))))"
| "compileSet E x p s =
     rbind (vec_at (constList x) 1) (\<lambda>c1.
     rbind (addSymbol c1 s) (\<lambda>(i, s1).
     rbind (putValue E x p s1) (\<lambda>s2.
     rbind (emplace_back p (STORE E) s2) (\<lambda>s3.
       pushNumber i (Some p) s3))))"
| "compileQuote E x p s =
     (let s0 = emplace_page s;
          page_id = length (m_code_pages s0) - 1
      in
        rbind (vec_at (constList x) 1) (\<lambda>c1.
        rbind (compile_node E c1 (int page_id) s0) (\<lambda>s1.
        rbind (emplace_back (int page_id) (RET E) s1) (\<lambda>s2.
        rbind (addValue_page page_id x s2) (\<lambda>(id, s3).
        rbind (emplace_back p (LOAD_CONST E) s3) (\<lambda>s4.
          pushNumber id (Some p) s4))))))"
| "handleCalls E x p s =
     (let s0 = emplace_temp_page s;
          proc_page = - int (length (m_temp_pages s0))
      in
        rbind (vec_at (constList x) 0) (\<lambda>c0.
        rbind (compile_node E c0 proc_page s0) (\<lambda>s1.
        rbind (handleCalls_fields E x 1 proc_page s1) (\<lambda>(n, s2).
        rbind (temp_back s2) (\<lambda>proc.
          if 1 < length proc then
            rbind (compile_range E x n (length (constList x)) p s2) (\<lambda>s3.
            rbind (push_temp_back p s3) (\<lambda>s4.
            rbind (temp_pop_back s4) (\<lambda>s5.
            rbind (emplace_back p (CALL E) s5) (\<lambda>s6.
              let args_count = length (filter is_argument (drop 1 (constList x)))
              in pushNumber (of_nat args_count) (Some p) s6))))
          else
            rbind (vec_at proc 0) (\<lambda>op_inst.
            rbind (temp_pop_back s2) (\<lambda>s3.
            rbind (handleCalls_operator E x op_inst n 0 p s3) (\<lambda>(exp_count, s4).
            rbind (if exp_count = 1 then emplace_back p op_inst s4 else Inr s4) (\<lambda>s5.
              if 2 < exp_count then
                (if op_inst = ADD E \<or> op_inst = SUB E \<or> op_inst = DIV E \<or> op_inst = MUL E \<or>
                    op_inst = MOD E \<or> op_inst = AND_inst E \<or> op_inst = OR_inst E
                 then Inr s5
                 else rbind (operator_name E op_inst) (\<lambda>name.
                        Inl (ChainedExpression exp_count name x)))
              else Inr s5)))))))))"
| "handleCalls_fields E x n proc_page s =
     (if n < length (constList x) then
        rbind (vec_at (constList x) n) (\<lambda>c.
          if nodeType c = NT_GetField then
            rbind (compile_node E c proc_page s) (\<lambda>s1.
              handleCalls_fields E x (n + 1) proc_page s1)
          else Inr (n, s))
      else Inr (n, s))"
| "handleCalls_operator E x op_inst index exp_count p s =
     (let size = length (constList x)
      in if index < size then
           rbind (vec_at (constList x) index) (\<lambda>c.
           rbind (compile_node E c p s) (\<lambda>s1.
             let exp_count' =
                   (if (index + 1 < size \<and> is_argument (constList x ! (index + 1))) \<or>
                       index + 1 = size
                    then exp_count + 1 else exp_count)
             in rbind (if 2 \<le> exp_count' then emplace_back p op_inst s1 else Inr s1) (\<lambda>s2.
                  handleCalls_operator E x op_inst (index + 1) exp_count' p s2)))
         else Inr (exp_count, s))"
| "putValue E x p s = compile_range E x 2 (length (constList x)) p s"
  by pat_completeness auto

termination
  apply (relation "inv_image (less_than <*lex*> less_than <*lex*> less_than)
    (case_sum
      (case_sum
        (case_sum (\<lambda>(E, x, p, s). (size x, 10::nat, 0::nat))
          (case_sum (\<lambda>(E, x, i, k, p, s). (size x, 7, k - i))
                    (\<lambda>(E, c0, x, p, s). (size x, 9, 0))))
        (case_sum
          (case_sum (\<lambda>(E, x, i, p, s). (size x, 8, i))
                    (\<lambda>(E, x, p, s). (size x, 9, 0)))
          (case_sum (\<lambda>(E, x, p, s). (size x, 9, 0))
                    (\<lambda>(E, n, x, p, s). (size x, 9, 0)))))
      (case_sum
        (case_sum (\<lambda>(E, x, p, s). (size x, 9, 0))
          (case_sum (\<lambda>(E, x, p, s). (size x, 9, 0))
                    (\<lambda>(E, x, p, s). (size x, 9, 0))))
        (case_sum
          (case_sum (\<lambda>(E, x, p, s). (size x, 9, 0))
                    (\<lambda>(E, x, n, p, s). (size x, 7, length (constList x) - n)))
          (case_sum (\<lambda>(E, x, op_inst, index, exp_count, p, s).
                       (size x, 7, length (constList x) - index))
                    (\<lambda>(E, x, p, s). (size x, 8, 0))))))")
  apply (auto dest: vec_at_size skip_fields_le)
  done

declare compile_node.simps [simp del] compile_range.simps [simp del]
  compileSpecific.simps [simp del] compileSpecific_loop.simps [simp del]
  compileIf.simps [simp del] compileFunction.simps [simp del] compileLetMut.simps [simp del]
  compileWhile.simps [simp del] compileSet.simps [simp del] compileQuote.simps [simp del]
  handleCalls.simps [simp del] handleCalls_fields.simps [simp del]
  handleCalls_operator.simps [simp del] putValue.simps [simp del]

section \<open>The container\<close>

text \<open>The eight bytes of the timestamp, most significant first.\<close>

definition timestamp_bytes :: "u64 \<Rightarrow> u8 list" where
  "timestamp_bytes t =
     map (\<lambda>c. let d = 56 - 8 * c in ucast (drop_bit d (t AND push_bit d 0xff))) [0..<8]"

definition pushHeadersPhase1 :: "env \<Rightarrow> compiler \<Rightarrow> compiler" where
  "pushHeadersPhase1 E s =
     s\<lparr>m_bytecode := m_bytecode s @ map of_char ''ark'' @ [0] @
          number_bytes (ARK_VERSION_MAJOR E) @ number_bytes (ARK_VERSION_MINOR E) @
          number_bytes (ARK_VERSION_PATCH E) @ timestamp_bytes (timestamp E)\<rparr>"

text \<open>The symbols, each followed by a zero byte.\<close>

fun symbol_table_bytes :: "node list \<Rightarrow> error + u8 list" where
  "symbol_table_bytes [] = Inr []"
| "symbol_table_bytes (symb # rest) =
     rbind (node_string symb) (\<lambda>str.
     rbind (symbol_table_bytes rest) (\<lambda>bs.
       Inr (map of_char str @ [0] @ bs)))"

text \<open>One value: its type tag, its payload and a zero byte.\<close>

fun value_bytes :: "env \<Rightarrow> ValTableElem \<Rightarrow> u8 list" where
  "value_bytes E (Val_Number n) = [NUMBER_TYPE E] @ map of_char (to_string E n) @ [0]"
| "value_bytes E (Val_String t) = [STRING_TYPE E] @ map of_char t @ [0]"
| "value_bytes E (Val_PageAddr a) = [FUNC_TYPE E] @ number_bytes (of_nat a) @ [0]"

definition pushHeadersPhase2 :: "env \<Rightarrow> compiler \<Rightarrow> error + compiler" where
  "pushHeadersPhase2 E s =
     rbind (symbol_table_bytes (m_symbols s)) (\<lambda>syms.
       Inr (s\<lparr>m_bytecode := m_bytecode s @
              [SYM_TABLE_START E] @ number_bytes (of_nat (length (m_symbols s))) @ syms @
              [VAL_TABLE_START E] @ number_bytes (of_nat (length (m_values s))) @
              concat (map (value_bytes E) (m_values s))\<rparr>))"

text \<open>One code segment: the start byte, the length, the instructions and a \<^verbatim>\<open>HALT\<close>.\<close>

definition code_segment :: "env \<Rightarrow> u8 list \<Rightarrow> u8 list" where
  "code_segment E pg =
     [CODE_SEGMENT_START E] @ number_bytes (of_nat (length pg + 1)) @ pg @ [HALT E]"

text \<open>The loop \<^verbatim>\<open>for (auto page : m_code_pages)\<close> of \<^verbatim>\<open>compile\<close>.\<close>

fun push_code_segments :: "env \<Rightarrow> u8 list list \<Rightarrow> u8 list \<Rightarrow> u8 list" where
  "push_code_segments E [] bytecode = bytecode"
| "push_code_segments E (pg # rest) bytecode =
     push_code_segments E rest (bytecode @ code_segment E pg)"

text \<open>
  The code segments of \<^verbatim>\<open>compile\<close>: the loop, and the single segment that holds only a
  \<^verbatim>\<open>HALT\<close> when there is no page.
\<close>

definition emit_code_segments :: "env \<Rightarrow> u8 list list \<Rightarrow> u8 list \<Rightarrow> u8 list" where
  "emit_code_segments E pages bytecode =
     (let b1 = push_code_segments E pages bytecode
      in if pages = [] then b1 @ [CODE_SEGMENT_START E] @ number_bytes 1 @ [HALT E] else b1)"

definition header_size :: nat where
  "header_size = 18"

text \<open>
  \<^verbatim>\<open>Compiler::compile\<close>, on the tree \<open>ast\<close> that \<^verbatim>\<open>m_optimizer.ast()\<close> returns and the
  members \<open>s\<close> of the compiler.
\<close>

definition compile :: "env \<Rightarrow> node \<Rightarrow> compiler \<Rightarrow> error + compiler" where
  "compile E ast s =
     (let s1 = emplace_page (pushHeadersPhase1 E s)
      in
        rbind (compile_node E ast 0 s1) (\<lambda>s2.
        rbind (checkForUndefinedSymbol E s2) (\<lambda>_.
        rbind (pushHeadersPhase2 E s2) (\<lambda>s3.
          let b2 = emit_code_segments E (m_code_pages s3) (m_bytecode s3);
              hash = hash256 E (drop header_size b2)
          in Inr (s3\<lparr>m_bytecode := take header_size b2 @ hash @ drop header_size b2\<rparr>)))))"

section \<open>The virtual machine\<close>

text \<open>
  Modelled from the spec: the runtime value (\<^verbatim>\<open>Value.hpp\<close> is not among the sources), a
  tagged sum with the sentinel \<^verbatim>\<open>Undefined\<close>.
\<close>

datatype Value =
    V_Undefined
  | V_Nil
  | V_True
  | V_False
  | V_Number real
  | V_String string
  | V_List "Value list"
  | V_Closure nat
  | V_Builtin nat
  | V_UserType








section \<open>Predicates of the specification\<close>

text \<open>
  A name of the symbol table is unbound when it is neither in the set of defined symbols nor
  has its prefix before the first colon equal to the file stem of an entry of the plugin list.
\<close>

definition unbound_name :: "env \<Rightarrow> compiler \<Rightarrow> string \<Rightarrow> bool" where
  "unbound_name E s name =
     (name \<notin> set (m_defined_symbols s) \<and>
      \<not> (\<exists>plugin \<in> set (m_plugins s). stem E plugin = takeWhile (\<lambda>c. c \<noteq> CHR '':'') name))"

definition unbound_node :: "env \<Rightarrow> compiler \<Rightarrow> node \<Rightarrow> bool" where
  "unbound_node E s n = (\<exists>name. node_string n = Inr name \<and> unbound_name E s name)"

text \<open>
  The state \<open>s'\<close> extends the state \<open>s\<close>: the bytecode and the number of temporary pages are
  the same, every page and every table of \<open>s\<close> is a prefix of the one of \<open>s'\<close>, and the
  defined symbols of \<open>s\<close> are defined in \<open>s'\<close>.
\<close>

definition extends :: "compiler \<Rightarrow> compiler \<Rightarrow> bool" where
  "extends s s' =
     (m_bytecode s' = m_bytecode s \<and>
      length (m_temp_pages s') = length (m_temp_pages s) \<and>
      length (m_code_pages s) \<le> length (m_code_pages s') \<and>
      (\<forall>i < length (m_code_pages s). prefix (m_code_pages s ! i) (m_code_pages s' ! i)) \<and>
      (\<forall>i < length (m_temp_pages s). prefix (m_temp_pages s ! i) (m_temp_pages s' ! i)) \<and>
      prefix (m_symbols s) (m_symbols s') \<and>
      prefix (m_values s) (m_values s') \<and>
      prefix (m_plugins s) (m_plugins s') \<and>
      set (m_defined_symbols s) \<subseteq> set (m_defined_symbols s'))"

text \<open>A node lowers well when every successful lowering of it extends the state.\<close>

definition lowers_well :: "env \<Rightarrow> node \<Rightarrow> bool" where
  "lowers_well E c = (\<forall>p s s'. compile_node E c p s = Inr s' \<longrightarrow> extends s s')"

text \<open>
  \<open>seg\<close> is the code segment of the page \<open>pg\<close>: the start byte, two bytes that hold, most
  significant first, the length of the page plus one modulo \<open>2\<^sup>1\<^sup>6\<close>, the bytes of the page
  and a \<^verbatim>\<open>HALT\<close>.
\<close>

definition segment_of :: "env \<Rightarrow> u8 list \<Rightarrow> u8 list \<Rightarrow> bool" where
  "segment_of E seg pg =
     (\<exists>hi lo. seg = [CODE_SEGMENT_START E, hi, lo] @ pg @ [HALT E] \<and>
        256 * unat hi + unat lo = (length pg + 1) mod 65536)"

text \<open>
  The names that a program binds. \<open>node_names\<close> is the name a node holds, if any;
  \<open>declared\<close> is what the form with the children \<open>xs\<close> binds itself: the name after
  \<^verbatim>\<open>let\<close> or \<^verbatim>\<open>mut\<close>, and the symbols of the parameter list of \<^verbatim>\<open>fun\<close>;
  \<open>binder_names\<close> collects them over the whole tree.
\<close>

definition node_names :: "node \<Rightarrow> string list" where
  "node_names n = (case node_string n of Inr name \<Rightarrow> [name] | Inl _ \<Rightarrow> [])"

fun declared :: "node list \<Rightarrow> string list" where
  "declared (Keyword k # c1 # cs) =
     (if k = K_Let \<or> k = K_Mut then node_names c1
      else if k = K_Fun
      then concat (map node_names (filter (\<lambda>it. nodeType it = NT_Symbol) (constList c1)))
      else [])"
| "declared _ = []"

fun binder_names :: "node \<Rightarrow> string list" where
  "binder_names (List xs) = declared xs @ concat (map binder_names xs)"
| "binder_names _ = []"

text \<open>The plugins that a program imports: the names after \<^verbatim>\<open>import\<close>, over the whole tree.\<close>

fun imported :: "node list \<Rightarrow> string list" where
  "imported (Keyword k # c1 # cs) = (if k = K_Import then node_names c1 else [])"
| "imported _ = []"

fun imported_plugins :: "node \<Rightarrow> string list" where
  "imported_plugins (List xs) = imported xs @ concat (map imported_plugins xs)"
| "imported_plugins _ = []"

text \<open>
  The lowering from \<open>s\<close> to \<open>s'\<close> keeps within the names \<open>D\<close> and the plugins \<open>P\<close>: what
  is defined in \<open>s'\<close> was defined in \<open>s\<close> or is in \<open>D\<close>, and alike for the plugins.
\<close>

definition keeps_within :: "string set \<Rightarrow> string set \<Rightarrow> compiler \<Rightarrow> compiler \<Rightarrow> bool" where
  "keeps_within D P s s' =
     (set (m_defined_symbols s') \<subseteq> set (m_defined_symbols s) \<union> D \<and>
      set (m_plugins s') \<subseteq> set (m_plugins s) \<union> P)"

text \<open>The name \<open>v\<close> is registered in \<open>s\<close>: some node of the symbol table holds it.\<close>

definition registered :: "string \<Rightarrow> compiler \<Rightarrow> bool" where
  "registered v s = (\<exists>n \<in> set (m_symbols s). node_string n = Inr v)"

text \<open>
  The program \<open>x\<close> uses the variable \<open>v\<close>: the symbol \<open>v\<close>, which names neither a builtin
  nor an operator, stands at a place that the lowering of \<open>x\<close> evaluates, or is the target
  of a \<^verbatim>\<open>set\<close> or a \<^verbatim>\<open>del\<close>, or is captured by a function.
\<close>

inductive uses :: "env \<Rightarrow> node \<Rightarrow> string \<Rightarrow> bool" for E :: env where
  uses_Symbol: "isBuiltin E v = None \<Longrightarrow> isOperator E v = None \<Longrightarrow> uses E (Symbol v) v"
| uses_Begin: "c \<in> set cs \<Longrightarrow> uses E c v \<Longrightarrow> uses E (List (Keyword K_Begin # cs)) v"
| uses_value: "k = K_Let \<or> k = K_Mut \<or> k = K_Set \<Longrightarrow> c \<in> set cs \<Longrightarrow> uses E c v \<Longrightarrow>
     uses E (List (Keyword k # c1 # cs)) v"
| uses_target: "k = K_Set \<or> k = K_Del \<Longrightarrow> node_string c1 = Inr v \<Longrightarrow>
     uses E (List (Keyword k # c1 # cs)) v"
| uses_If_cond: "uses E c v \<Longrightarrow> uses E (List (Keyword K_If # c # cs)) v"
| uses_If_then: "uses E t v \<Longrightarrow> uses E (List (Keyword K_If # c # t # cs)) v"
| uses_If_else: "uses E e v \<Longrightarrow> uses E (List [Keyword K_If, c, t, e]) v"
| uses_While_cond: "uses E c v \<Longrightarrow> uses E (List (Keyword K_While # c # cs)) v"
| uses_While_body: "uses E b v \<Longrightarrow> uses E (List (Keyword K_While # c # b # cs)) v"
| uses_Fun_body: "uses E b v \<Longrightarrow> uses E (List (Keyword K_Fun # args # b # cs)) v"
| uses_Fun_capture: "Capture v \<in> set (constList args) \<Longrightarrow>
     uses E (List (Keyword K_Fun # args # cs)) v"
| uses_Quote: "uses E c v \<Longrightarrow> uses E (List (Keyword K_Quote # c # cs)) v"
| uses_call: "\<not> names_specific E c0 \<Longrightarrow> nodeType c0 \<noteq> NT_Keyword \<Longrightarrow> c \<in> set (c0 # cs) \<Longrightarrow>
     uses E c v \<Longrightarrow> uses E (List (c0 # cs)) v"
| uses_specific: "names_specific E c0 \<Longrightarrow> length cs < 65536 \<Longrightarrow> c \<in> set cs \<Longrightarrow>
     uses E c v \<Longrightarrow> uses E (List (c0 # cs)) v"

code_pred uses .

text \<open>Every symbol of the table of \<open>s\<close> is in the table of \<open>s'\<close>.\<close>

definition keeps_symbols :: "compiler \<Rightarrow> compiler \<Rightarrow> bool" where
  "keeps_symbols s s' = (set (m_symbols s) \<subseteq> set (m_symbols s'))"

text \<open>
  The node \<open>c\<close> has been lowered on the way to \<open>s'\<close>: some lowering of \<open>c\<close> succeeded, and
  the symbols of the table after it are in the table of \<open>s'\<close>.
\<close>

definition lowered_in :: "env \<Rightarrow> node \<Rightarrow> compiler \<Rightarrow> bool" where
  "lowered_in E c s' = (\<exists>p sa sb. compile_node E c p sa = Inr sb \<and> keeps_symbols sb s')"

section \<open>Examples\<close>

text \<open>
  An environment for the examples. The opcodes, the tables and the library functions are
  stand-ins for those of the files that are not among the sources; the operators take the
  opcodes from \<open>FIRST_OPERATOR\<close> on in the order of the operator table.
\<close>

definition example_env :: env where
  "example_env = \<lparr>
     HALT = 0x09, LOAD_SYMBOL = 0x01, LOAD_CONST = 0x02, POP_JUMP_IF_TRUE = 0x03, STORE = 0x04,
     LET = 0x05, POP_JUMP_IF_FALSE = 0x06, JUMP = 0x07, RET = 0x08, CALL = 0x0a,
     CAPTURE = 0x0b, BUILTIN = 0x0c, MUT = 0x0d, DEL = 0x0e, GET_FIELD = 0x10, PLUGIN = 0x11,
     LIST = 0x12, APPEND = 0x13, CONCAT = 0x14, APPEND_IN_PLACE = 0x15,
     CONCAT_IN_PLACE = 0x16, FIRST_OPERATOR = 0x20, ADD = 0x20, SUB = 0x21, MUL = 0x22,
     DIV = 0x23, MOD = 0x24, AND_inst = 0x25, OR_inst = 0x26,
     CODE_SEGMENT_START = 0x03, SYM_TABLE_START = 0x01, VAL_TABLE_START = 0x02,
     NUMBER_TYPE = 0x01, STRING_TYPE = 0x02, FUNC_TYPE = 0x03,
     operators = [''+'', ''-'', ''*'', ''/'', ''mod'', ''and'', ''or'', ''='', ''<'', ''not''],
     builtins = [''false'', ''true'', ''nil'', ''print''],
     isSpecific = map_of [(''list'', 0x12), (''append'', 0x13), (''concat'', 0x14),
       (''append!'', 0x15), (''concat!'', 0x16), (''pop'', 0x17), (''pop!'', 0x18)],
     ARK_VERSION_MAJOR = 3, ARK_VERSION_MINOR = 0, ARK_VERSION_PATCH = 15,
     timestamp = 0x5f5e1000,
     to_string = (\<lambda>d. ''0.000000''),
     stem = takeWhile (\<lambda>c. c \<noteq> CHR ''.''),
     hash256 = (\<lambda>bs. replicate 32 (of_nat (length bs)))\<rparr>"

text \<open>A symbol table that holds 65535 symbols with the names \<open>a\<^sup>n\<close>.\<close>

definition full_symbol_table :: "node list" where
  "full_symbol_table = map (\<lambda>n. Symbol (replicate n CHR ''a'')) [0..<65535]"


text \<open>
  The program \<^verbatim>\<open>(let a 1) (fun () b)\<close>, in which \<open>b\<close> is used and never bound.
\<close>

definition unbound_program :: node where
  "unbound_program =
     List [Keyword K_Begin,
           List [Keyword K_Let, Symbol ''a'', Number 1],
           List [Keyword K_Fun, List [], Symbol ''b'']]"

text \<open>The program \<^verbatim>\<open>(let a "x")\<close>.\<close>

definition let_program :: node where
  "let_program = List [Keyword K_Let, Symbol ''a'', String ''x'']"

text \<open>A program of 21845 string literals, whose page holds 65535 bytes.\<close>

definition big_program :: node where
  "big_program = List (Keyword K_Begin # replicate 21845 (String ''a''))"

definition big_result :: compiler where
  "big_result = \<lparr>m_symbols = [], m_defined_symbols = [], m_plugins = [],
     m_values = [Val_String ''a''],
     m_code_pages = [concat (replicate 21845 [2, 0, 0])], m_temp_pages = [],
     m_bytecode =
       [97, 114, 107, 0, 0, 3, 0, 0, 0, 15, 0, 0, 0, 0, 95, 94, 16, 0] @
       replicate 32 12 @ [1, 0, 0] @ [2, 0, 1, 2, 97, 0] @
       [3, 0, 0] @ concat (replicate 21845 [2, 0, 0]) @ [9]\<rparr>"



section \<open>Sequencing\<close>

lemma rbind_Inr [simp]: "rbind (Inr v) f = f v"
  by (simp add: rbind_def)

lemma rbind_Inl [simp]: "rbind (Inl e) f = Inl e"
  by (simp add: rbind_def)

lemma rbind_eq_Inr: "rbind m f = Inr r \<longleftrightarrow> (\<exists>v. m = Inr v \<and> f v = Inr r)"
  by (cases m) simp_all

lemma rbind_eq_Inl: "rbind m f = Inl e \<longleftrightarrow> m = Inl e \<or> (\<exists>v. m = Inr v \<and> f v = Inl e)"
  by (cases m) simp_all

lemma rbind_return: "rbind m Inr = m"
  by (cases m) simp_all

lemma rbind_assoc: "rbind (rbind m f) g = rbind m (\<lambda>v. rbind (f v) g)"
  by (cases m) simp_all

lemma rbind_weak_cong: "m = m' \<Longrightarrow> rbind m f = rbind m' f"
  by simp


lemmas compile_simps = compile_node.simps compile_range.simps
  compileSpecific.simps compileSpecific_loop.simps
  compileIf.simps compileFunction.simps compileLetMut.simps
  compileWhile.simps compileSet.simps compileQuote.simps
  handleCalls.simps handleCalls_fields.simps
  handleCalls_operator.simps putValue.simps

lemmas prim_defs = compileSymbol_def emplace_back_def page_def set_page_def vec_at_def
  pushNumber_def addSymbol_def addValue_def addValue_elem_def addValue_page_def
  addDefinedSymbol_def isBuiltin_def isOperator_def names_specific_def emplace_page_def
  emplace_temp_page_def temp_back_def temp_pop_back_def push_temp_back_def opt_value_def
  page_size_def patch_jump_def compilePluginImport_def compileDel_def
  pushSpecificInstArgc_def countArkObjects_def is_argument_def operator_name_def
  number_bytes_def

lemmas header_defs = pushHeadersPhase1_def timestamp_bytes_def upt_rec drop_bit_eq_div
  push_bit_eq_mult

section \<open>The two bytes of a number\<close>

lemma hi_byte: "drop_bit 8 (n AND 0xff00) = drop_bit 8 (n :: u16)"
proof -
  have e: "(0xff00 :: u16) = push_bit 8 (mask 8)"
    by (simp add: mask_eq_exp_minus_1 push_bit_eq_mult)
  show ?thesis
    unfolding e
    apply (rule bit_word_eqI)
    apply (simp only: bit_simps o_apply)
    apply (auto dest: bit_imp_le_length)
    done
qed

lemma lo_byte: "n AND 0x00ff = take_bit 8 (n :: u16)"
proof -
  have e: "(0x00ff :: u16) = mask 8"
    by (simp add: mask_eq_exp_minus_1)
  show ?thesis
    unfolding e by (simp only: take_bit_eq_mask)
qed

lemma unat_hi_byte: "unat (ucast (drop_bit 8 (n AND 0xff00 :: u16)) :: u8) = unat n div 256"
proof -
  have lt: "unat n < 65536" using unsigned_less [of n, where 'a = nat] by simp
  then have "unat n div 256 < 256" by simp
  then have 1: "take_bit 8 (unat n div 256) = unat n div 256"
    by (simp add: take_bit_eq_mod)
  from lt have 2: "take_bit 16 (unat n) = unat n"
    by (simp add: take_bit_eq_mod)
  have "unat (ucast (drop_bit 8 n) :: u8) = take_bit 8 (drop_bit 8 (unat n))"
    using 2 by (simp add: unsigned_ucast_eq unsigned_drop_bit_eq)
  also have "\<dots> = unat n div 256"
    using 1 by (simp add: drop_bit_eq_div)
  finally show ?thesis by (simp only: hi_byte)
qed

lemma unat_lo_byte: "unat (ucast (n AND 0x00ff :: u16) :: u8) = unat n mod 256"
  by (simp only: lo_byte unsigned_ucast_eq unsigned_take_bit_eq) (simp add: take_bit_eq_mod)

lemma number_bytes_value:
  "\<exists>hi lo. number_bytes n = [hi, lo] \<and> 256 * unat hi + unat lo = unat n"
  unfolding number_bytes_def
  by (intro exI conjI, rule refl) (simp only: unat_hi_byte unat_lo_byte, simp)

lemma segment_of_code_segment: "segment_of E (code_segment E pg) pg"
proof -
  from number_bytes_value [of "of_nat (length pg + 1)"] obtain hi lo where
    a: "number_bytes (of_nat (length pg + 1)) = [hi, lo]"
    and b: "256 * unat hi + unat lo = unat (of_nat (length pg + 1) :: u16)"
    by blast
  have c: "unat (of_nat (length pg + 1) :: u16) = (length pg + 1) mod 65536"
    by (simp only: unat_of_nat) simp
  show ?thesis
    unfolding segment_of_def code_segment_def
    apply (rule exI [of _ hi])
    apply (rule exI [of _ lo])
    apply (simp only: a b c)
    apply simp
    done
qed

section \<open>Lowering extends the state\<close>

lemma length_number_bytes [simp]: "length (number_bytes n) = 2"
  by (simp add: number_bytes_def)

lemma extends_refl [simp]: "extends s s"
  by (simp add: extends_def)

lemma extends_trans: "extends s s1 \<Longrightarrow> extends s1 s2 \<Longrightarrow> extends s s2"
  unfolding extends_def
  by (auto intro: prefix_order.trans dest: order_trans)

lemma vec_at_eq_Inr: "vec_at xs i = Inr v \<longleftrightarrow> i < length xs \<and> v = xs ! i"
  by (auto simp: vec_at_def)

lemma extends_set_page:
  "page p s = Inr bs \<Longrightarrow> prefix bs bs' \<Longrightarrow> extends s (set_page p bs' s)"
  by (auto simp: extends_def page_def set_page_def vec_at_eq_Inr nth_list_update split: if_splits)

lemma extends_page:
  "extends s s' \<Longrightarrow> page p s = Inr bs \<Longrightarrow> \<exists>c. page p s' = Inr (bs @ c)"
  by (auto simp: extends_def page_def vec_at_eq_Inr prefix_def split: if_splits)

lemma page_set_page: "page p s = Inr bs \<Longrightarrow> page p (set_page p bs' s) = Inr bs'"
  by (auto simp: page_def set_page_def vec_at_eq_Inr split: if_splits)

lemma emplace_back_eq_Inr:
  "emplace_back p b s = Inr s' \<longleftrightarrow> (\<exists>bs. page p s = Inr bs \<and> s' = set_page p (bs @ [b]) s)"
  by (auto simp: emplace_back_def rbind_eq_Inr)

lemma pushNumber_eq_Inr:
  "pushNumber n (Some p) s = Inr s' \<longleftrightarrow>
     (\<exists>bs. page p s = Inr bs \<and> s' = set_page p (bs @ number_bytes n) s)"
  by (auto simp: pushNumber_def rbind_eq_Inr)

lemma emplace_back_extends: "emplace_back p b s = Inr s' \<Longrightarrow> extends s s'"
  by (auto simp: emplace_back_eq_Inr intro: extends_set_page)

lemma pushNumber_extends: "pushNumber n (Some p) s = Inr s' \<Longrightarrow> extends s s'"
  by (auto simp: pushNumber_eq_Inr intro: extends_set_page)

lemma addSymbol_extends: "addSymbol x s = Inr (i, s') \<Longrightarrow> extends s s'"
  by (auto simp: addSymbol_def rbind_eq_Inr extends_def Let_def split: option.splits if_splits)

lemma addValue_elem_extends: "addValue_elem v x s = Inr (i, s') \<Longrightarrow> extends s s'"
  by (auto simp: addValue_elem_def extends_def Let_def split: option.splits if_splits)

lemma addValue_extends: "addValue x s = Inr (i, s') \<Longrightarrow> extends s s'"
  by (auto simp: addValue_def rbind_eq_Inr dest: addValue_elem_extends)

lemma addValue_page_extends: "addValue_page a x s = Inr (i, s') \<Longrightarrow> extends s s'"
  by (auto simp: addValue_page_def dest: addValue_elem_extends)

lemma addDefinedSymbol_extends [simp]: "extends s (addDefinedSymbol n s)"
  by (auto simp: addDefinedSymbol_def extends_def)

lemma emplace_page_extends [simp]: "extends s (emplace_page s)"
  by (auto simp: emplace_page_def extends_def nth_append)

lemmas ext_dests = emplace_back_extends pushNumber_extends addSymbol_extends addValue_extends
  addValue_page_extends

lemma compileDel_extends: "compileDel E x p s = Inr s' \<Longrightarrow> extends s s'"
  by (auto simp: compileDel_def rbind_eq_Inr dest!: ext_dests intro: extends_trans)

lemma compilePluginImport_extends: "compilePluginImport E x p s = Inr s' \<Longrightarrow> extends s s'"
proof -
  have a: "extends s0 (s0\<lparr>m_plugins := m_plugins s0 @ [n]\<rparr>)" for s0 n
    by (simp add: extends_def)
  assume "compilePluginImport E x p s = Inr s'"
  then obtain b va vb where "extends s b" "extends (b\<lparr>m_plugins := m_plugins b @ [va]\<rparr>) vb"
    "extends vb s'"
    by (auto simp: compilePluginImport_def rbind_eq_Inr dest!: ext_dests)
  then show ?thesis
    using a [of b va] by (blast intro: extends_trans)
qed

lemma compileSymbol_extends: "compileSymbol E x p s = Inr s' \<Longrightarrow> extends s s'"
  by (auto simp: compileSymbol_def rbind_eq_Inr split: option.splits
      dest!: ext_dests intro: extends_trans)

lemma compileFunction_captures_extends:
  "compileFunction_captures E args p s = Inr s' \<Longrightarrow> extends s s'"
proof (induction args arbitrary: s)
  case Nil
  then show ?case by simp
next
  case (Cons it rest)
  show ?case
  proof (cases "nodeType it = NT_Capture")
    case True
    with Cons.prems obtain name s1 var_id s2 s3 where
      1: "emplace_back p (CAPTURE E) s = Inr s1"
      and 2: "addSymbol it (addDefinedSymbol name s1) = Inr (var_id, s2)"
      and 3: "pushNumber var_id (Some p) s2 = Inr s3"
      and 4: "compileFunction_captures E rest p s3 = Inr s'"
      by (auto simp: rbind_eq_Inr split: if_splits)
    from emplace_back_extends [OF 1] addDefinedSymbol_extends [of s1 name]
      addSymbol_extends [OF 2] pushNumber_extends [OF 3] Cons.IH [OF 4]
    show ?thesis by (blast intro: extends_trans)
  next
    case False
    with Cons show ?thesis by simp
  qed
qed

lemma compileFunction_args_extends:
  "compileFunction_args E args page_id s = Inr s' \<Longrightarrow> extends s s'"
proof (induction args arbitrary: s)
  case Nil
  then show ?case by simp
next
  case (Cons it rest)
  show ?case
  proof (cases "nodeType it = NT_Symbol")
    case True
    with Cons.prems obtain name s1 var_id s2 s3 where
      1: "emplace_back (int page_id) (MUT E) s = Inr s1"
      and 2: "addSymbol it s1 = Inr (var_id, s2)"
      and 3: "pushNumber var_id (Some (int page_id)) (addDefinedSymbol name s2) = Inr s3"
      and 4: "compileFunction_args E rest page_id s3 = Inr s'"
      by (auto simp: rbind_eq_Inr split: if_splits)
    from emplace_back_extends [OF 1] addSymbol_extends [OF 2]
      addDefinedSymbol_extends [of s2 name] pushNumber_extends [OF 3] Cons.IH [OF 4]
    show ?thesis by (blast intro: extends_trans)
  next
    case False
    with Cons show ?thesis by simp
  qed
qed


lemma patch_jump_eq_Inr:
  "patch_jump p pos s = Inr s' \<longleftrightarrow>
     (\<exists>bs. page p s = Inr bs \<and> pos + 1 < length bs \<and>
        s' = set_page p (bs[pos := number_bytes (of_nat (length bs)) ! 0,
                            pos + 1 := number_bytes (of_nat (length bs)) ! 1]) s)"
  by (auto simp: patch_jump_def rbind_eq_Inr split: if_splits)

lemma extends_set_page_base:
  assumes "extends s0 s" and "page p s = Inr bs"
    and "\<And>bs0. page p s0 = Inr bs0 \<Longrightarrow> prefix bs0 bs'"
  shows "extends s0 (set_page p bs' s)"
  using assms
  by (auto simp: extends_def page_def set_page_def vec_at_eq_Inr nth_list_update
      split: if_splits)

lemma patch_jump_extends:
  assumes "extends s0 s" and "patch_jump p pos s = Inr s'"
    and "\<And>bs0. page p s0 = Inr bs0 \<Longrightarrow> length bs0 \<le> pos"
  shows "extends s0 s'"
proof -
  from assms(2) obtain bs where bs: "page p s = Inr bs" "pos + 1 < length bs"
    and s': "s' = set_page p (bs[pos := number_bytes (of_nat (length bs)) ! 0,
                            pos + 1 := number_bytes (of_nat (length bs)) ! 1]) s"
    by (auto simp: patch_jump_eq_Inr)
  have "prefix bs0 (bs[pos := a, pos + 1 := b])" if "page p s0 = Inr bs0" for bs0 a b
  proof -
    from extends_page [OF assms(1) that] bs obtain c where c: "bs = bs0 @ c" by auto
    from assms(3) [OF that] have "length bs0 \<le> pos" .
    then show ?thesis
      by (simp add: c list_update_append)
  qed
  then show ?thesis
    unfolding s' using assms(1) bs(1) by (intro extends_set_page_base) auto
qed

lemma page_size_eq_Inr: "page_size p s = Inr n \<longleftrightarrow> (\<exists>bs. page p s = Inr bs \<and> n = length bs)"
  by (auto simp: page_size_def rbind_eq_Inr)

lemma extends_page_size:
  "extends s s' \<Longrightarrow> page_size p s' = Inr n \<Longrightarrow> page p s = Inr bs \<Longrightarrow> length bs \<le> n"
  by (auto simp: page_size_eq_Inr dest!: extends_page)

lemma kid:
  "\<forall>c \<in> set (constList x). lowers_well E c \<Longrightarrow> vec_at (constList x) i = Inr c \<Longrightarrow>
   compile_node E c p s = Inr s' \<Longrightarrow> extends s s'"
  by (auto simp: lowers_well_def vec_at_eq_Inr dest: nth_mem)

lemma compile_range_extends:
  assumes kids: "\<forall>c \<in> set (constList x). lowers_well E c"
  shows "compile_range E x i k p s = Inr s' \<Longrightarrow> extends s s'"
proof (induction "k - i" arbitrary: i s)
  case 0
  then show ?case by (simp add: compile_range.simps [of E x i k])
next
  case (Suc n)
  then have lt: "i < k" by simp
  with Suc.prems obtain c s1 where c: "vec_at (constList x) i = Inr c"
    and 1: "compile_node E c p s = Inr s1"
    and 2: "compile_range E x (i + 1) k p s1 = Inr s'"
    by (auto simp: compile_range.simps [of E x i k] rbind_eq_Inr)
  have "extends s1 s'" using Suc.hyps(1) [of "i + 1" s1] Suc.hyps(2) 2 by simp
  with kid [OF kids c 1] show ?case by (rule extends_trans)
qed

lemma putValue_extends:
  "\<forall>c \<in> set (constList x). lowers_well E c \<Longrightarrow> putValue E x p s = Inr s' \<Longrightarrow> extends s s'"
  by (simp add: putValue.simps compile_range_extends)

lemma compileSpecific_loop_extends:
  assumes kids: "\<forall>c \<in> set (constList x). lowers_well E c"
  shows "compileSpecific_loop E x i p s = Inr s' \<Longrightarrow> extends s s'"
proof (induction i arbitrary: s rule: less_induct)
  case (less i)
  show ?case
  proof (cases "0 < i")
    case False
    with less.prems show ?thesis by (simp add: compileSpecific_loop.simps [of E x i])
  next
    case True
    with less.prems obtain j s1 c s2 where j: "skip_fields (constList x) i = Inr j"
      and 1: "compile_range E x j i p s = Inr s1"
      and c: "vec_at (constList x) i = Inr c"
      and 2: "compile_node E c p s1 = Inr s2"
      and 3: "j \<noteq> 0" "compileSpecific_loop E x (j - 1) p s2 = Inr s'"
      by (auto simp: compileSpecific_loop.simps [of E x i] rbind_eq_Inr split: if_splits)
    from skip_fields_le [OF j] 3(1) True have "j - 1 < i" by simp
    from less.IH [OF this 3(2)] have "extends s2 s'" .
    with compile_range_extends [OF kids 1] kid [OF kids c 2] show ?thesis
      by (blast intro: extends_trans)
  qed
qed

lemma pushSpecificInstArgc_extends:
  "pushSpecificInstArgc E inst argc p s = Inr s' \<Longrightarrow> extends s s'"
  by (auto simp: pushSpecificInstArgc_def split: if_splits dest: pushNumber_extends)

lemma compileSpecific_extends:
  assumes kids: "\<forall>c \<in> set (constList x). lowers_well E c"
    and r: "compileSpecific E c0 x p s = Inr s'"
  shows "extends s s'"
proof -
  from r obtain inst i s1 s2 argc where 1: "compileSpecific_loop E x i p s = Inr s1"
    and 2: "emplace_back p inst s1 = Inr s2"
    and 3: "pushSpecificInstArgc E inst argc p s2 = Inr s'"
    by (auto simp: compileSpecific.simps rbind_eq_Inr Let_def split: if_splits)
  from compileSpecific_loop_extends [OF kids 1] emplace_back_extends [OF 2]
    pushSpecificInstArgc_extends [OF 3]
  show ?thesis by (blast intro: extends_trans)
qed

lemma compileIf_extends:
  assumes kids: "\<forall>c \<in> set (constList x). lowers_well E c"
    and r: "compileIf E x p s = Inr s'"
  shows "extends s s'"
proof -
  from r obtain cond s1 s2 jump_to_if_pos s3 s4 s5 jump_to_end_pos s6 s7 thn s8 where
    c: "vec_at (constList x) 1 = Inr cond" and 1: "compile_node E cond p s = Inr s1"
    and 2: "emplace_back p (POP_JUMP_IF_TRUE E) s1 = Inr s2"
    and pos1: "page_size p s2 = Inr jump_to_if_pos"
    and 3: "pushNumber 0 (Some p) s2 = Inr s3"
    and 4: "(if length (constList x) = 4
            then rbind (vec_at (constList x) 3) (\<lambda>els. compile_node E els p s3)
            else Inr s3) = Inr s4"
    and 5: "emplace_back p (JUMP E) s4 = Inr s5"
    and pos2: "page_size p s5 = Inr jump_to_end_pos"
    and 6: "pushNumber 0 (Some p) s5 = Inr s6"
    and 7: "patch_jump p jump_to_if_pos s6 = Inr s7"
    and t: "vec_at (constList x) 2 = Inr thn" and 8: "compile_node E thn p s7 = Inr s8"
    and 9: "patch_jump p jump_to_end_pos s8 = Inr s'"
    unfolding compileIf.simps rbind_eq_Inr by blast
  have e2: "extends s s2"
    using kid [OF kids c 1] emplace_back_extends [OF 2] by (rule extends_trans)
  have e34: "extends s3 s4"
    using 4 kid [OF kids] by (auto simp: rbind_eq_Inr split: if_splits)
  have e5: "extends s s5"
    using e2 pushNumber_extends [OF 3] e34 emplace_back_extends [OF 5]
    by (blast intro: extends_trans)
  have e6: "extends s s6"
    using e5 pushNumber_extends [OF 6] by (rule extends_trans)
  have e7: "extends s s7"
    using e6 7 extends_page_size [OF e2 pos1] by (rule patch_jump_extends)
  have e8: "extends s s8"
    using e7 kid [OF kids t 8] by (rule extends_trans)
  show ?thesis
    using e8 9 extends_page_size [OF e5 pos2] by (rule patch_jump_extends)
qed

lemma compileWhile_extends:
  assumes kids: "\<forall>c \<in> set (constList x). lowers_well E c"
    and r: "compileWhile E x p s = Inr s'"
  shows "extends s s'"
proof -
  from r obtain current cond s1 s2 jump_to_end_pos s3 body s4 s5 s6 where
    c: "vec_at (constList x) 1 = Inr cond" and 1: "compile_node E cond p s = Inr s1"
    and 2: "emplace_back p (POP_JUMP_IF_FALSE E) s1 = Inr s2"
    and pos: "page_size p s2 = Inr jump_to_end_pos"
    and 3: "pushNumber 0 (Some p) s2 = Inr s3"
    and b: "vec_at (constList x) 2 = Inr body" and 4: "compile_node E body p s3 = Inr s4"
    and 5: "emplace_back p (JUMP E) s4 = Inr s5"
    and 6: "pushNumber (of_nat current) (Some p) s5 = Inr s6"
    and 7: "patch_jump p jump_to_end_pos s6 = Inr s'"
    unfolding compileWhile.simps rbind_eq_Inr by blast
  have e2: "extends s s2"
    using kid [OF kids c 1] emplace_back_extends [OF 2] by (rule extends_trans)
  have e6: "extends s s6"
    using e2 pushNumber_extends [OF 3] kid [OF kids b 4] emplace_back_extends [OF 5]
      pushNumber_extends [OF 6]
    by (blast intro: extends_trans)
  show ?thesis
    using e6 7 extends_page_size [OF e2 pos] by (rule patch_jump_extends)
qed

lemma compileLetMut_extends:
  assumes kids: "\<forall>c \<in> set (constList x). lowers_well E c"
    and r: "compileLetMut E n x p s = Inr s'"
  shows "extends s s'"
proof -
  from r obtain c1 name i s1 s2 s3 where
    1: "addSymbol c1 s = Inr (i, s1)"
    and 2: "putValue E x p (addDefinedSymbol name s1) = Inr s2"
    and 3: "emplace_back p (if n = K_Let then LET E else MUT E) s2 = Inr s3"
    and 4: "pushNumber i (Some p) s3 = Inr s'"
    by (auto simp: compileLetMut.simps rbind_eq_Inr)
  from addSymbol_extends [OF 1] addDefinedSymbol_extends [of s1 name]
    putValue_extends [OF kids 2] emplace_back_extends [OF 3] pushNumber_extends [OF 4]
  show ?thesis by (blast intro: extends_trans)
qed

lemma compileSet_extends:
  assumes kids: "\<forall>c \<in> set (constList x). lowers_well E c"
    and r: "compileSet E x p s = Inr s'"
  shows "extends s s'"
proof -
  from r obtain c1 i s1 s2 s3 where
    1: "addSymbol c1 s = Inr (i, s1)" and 2: "putValue E x p s1 = Inr s2"
    and 3: "emplace_back p (STORE E) s2 = Inr s3" and 4: "pushNumber i (Some p) s3 = Inr s'"
    by (auto simp: compileSet.simps rbind_eq_Inr)
  from addSymbol_extends [OF 1] putValue_extends [OF kids 2] emplace_back_extends [OF 3]
    pushNumber_extends [OF 4]
  show ?thesis by (blast intro: extends_trans)
qed

lemma compileFunction_extends:
  assumes kids: "\<forall>c \<in> set (constList x). lowers_well E c"
    and r: "compileFunction E x p s = Inr s'"
  shows "extends s s'"
proof -
  from r obtain args s1 s3 ident s4 s5 s6 body s7 page_id where
    1: "compileFunction_captures E (constList args) p s = Inr s1"
    and 2: "emplace_back p (LOAD_CONST E) (emplace_page s1) = Inr s3"
    and 3: "addValue_page page_id x s3 = Inr (ident, s4)"
    and 4: "pushNumber ident (Some p) s4 = Inr s5"
    and 5: "compileFunction_args E (constList args) page_id s5 = Inr s6"
    and b: "vec_at (constList x) 2 = Inr body"
    and 7: "compile_node E body (int page_id) s6 = Inr s7"
    and 8: "emplace_back (int page_id) (RET E) s7 = Inr s'"
    by (auto simp: compileFunction.simps rbind_eq_Inr Let_def simp del: One_nat_def)
  from compileFunction_captures_extends [OF 1] emplace_page_extends [of s1]
    emplace_back_extends [OF 2] addValue_page_extends [OF 3] pushNumber_extends [OF 4]
    compileFunction_args_extends [OF 5] kid [OF kids b 7] emplace_back_extends [OF 8]
  show ?thesis by (blast intro: extends_trans)
qed

lemma compileQuote_extends:
  assumes kids: "\<forall>c \<in> set (constList x). lowers_well E c"
    and r: "compileQuote E x p s = Inr s'"
  shows "extends s s'"
proof -
  from r obtain c1 s1 s2 ident s3 s4 page_id where
    c: "vec_at (constList x) 1 = Inr c1"
    and 1: "compile_node E c1 (int page_id) (emplace_page s) = Inr s1"
    and 2: "emplace_back (int page_id) (RET E) s1 = Inr s2"
    and 3: "addValue_page page_id x s2 = Inr (ident, s3)"
    and 4: "emplace_back p (LOAD_CONST E) s3 = Inr s4"
    and 5: "pushNumber ident (Some p) s4 = Inr s'"
    by (auto simp: compileQuote.simps rbind_eq_Inr Let_def simp del: One_nat_def)
  from emplace_page_extends [of s] kid [OF kids c 1] emplace_back_extends [OF 2]
    addValue_page_extends [OF 3] emplace_back_extends [OF 4] pushNumber_extends [OF 5]
  show ?thesis by (blast intro: extends_trans)
qed

lemma handleCalls_fields_extends:
  assumes kids: "\<forall>c \<in> set (constList x). lowers_well E c"
  shows "handleCalls_fields E x n p s = Inr (n', s') \<Longrightarrow> extends s s'"
proof (induction "length (constList x) - n" arbitrary: n s)
  case 0
  then show ?case by (simp add: handleCalls_fields.simps [of E x n])
next
  case (Suc m)
  then have lt: "n < length (constList x)" by simp
  then obtain c where c: "vec_at (constList x) n = Inr c" by (simp add: vec_at_eq_Inr)
  show ?case
  proof (cases "nodeType c = NT_GetField")
    case False
    with Suc.prems lt c show ?thesis by (simp add: handleCalls_fields.simps [of E x n])
  next
    case True
    with Suc.prems lt c obtain s1 where 1: "compile_node E c p s = Inr s1"
      and 2: "handleCalls_fields E x (n + 1) p s1 = Inr (n', s')"
      by (auto simp: handleCalls_fields.simps [of E x n] rbind_eq_Inr)
    have "extends s1 s'" using Suc.hyps(1) [of "n + 1" s1] Suc.hyps(2) 2 by simp
    with kid [OF kids c 1] show ?thesis by (rule extends_trans)
  qed
qed

lemma handleCalls_operator_extends:
  assumes kids: "\<forall>c \<in> set (constList x). lowers_well E c"
  shows "handleCalls_operator E x op_inst index exp_count p s = Inr (n', s') \<Longrightarrow> extends s s'"
proof (induction "length (constList x) - index" arbitrary: index exp_count s)
  case 0
  then show ?case by (simp add: handleCalls_operator.simps [of E x op_inst index])
next
  case (Suc m)
  then have lt: "index < length (constList x)" by simp
  with Suc.prems obtain c s1 s2 exp_count' where c: "vec_at (constList x) index = Inr c"
    and 1: "compile_node E c p s = Inr s1"
    and 2: "(if 2 \<le> exp_count' then emplace_back p op_inst s1 else Inr s1) = Inr s2"
    and 3: "handleCalls_operator E x op_inst (index + 1) exp_count' p s2 = Inr (n', s')"
    by (auto simp: handleCalls_operator.simps [of E x op_inst index] rbind_eq_Inr Let_def
        simp del: One_nat_def)
  have "extends s1 s2" using 2 by (auto split: if_splits dest: emplace_back_extends)
  moreover have "extends s2 s'"
    using Suc.hyps(1) [of "index + 1" exp_count' s2] Suc.hyps(2) 3 by simp
  ultimately show ?case using kid [OF kids c 1] by (blast intro: extends_trans)
qed

lemma temp_pop_back_extends:
  assumes "extends (emplace_temp_page s) s1" and "temp_pop_back s1 = Inr s2"
  shows "extends s s2"
  using assms
  by (auto simp: extends_def emplace_temp_page_def temp_pop_back_def nth_append nth_butlast
      split: if_splits)

lemma push_temp_back_extends: "push_temp_back p s = Inr s' \<Longrightarrow> extends s s'"
  by (auto simp: push_temp_back_def rbind_eq_Inr split: if_splits intro: extends_set_page)

lemma handleCalls_extends:
  assumes kids: "\<forall>c \<in> set (constList x). lowers_well E c"
    and r: "handleCalls E x p s = Inr s'"
  shows "extends s s'"
proof -
  let ?s0 = "emplace_temp_page s"
  let ?pp = "- int (length (m_temp_pages ?s0))"
  from r obtain c0 s1 n s2 proc where c: "vec_at (constList x) 0 = Inr c0"
    and 1: "compile_node E c0 ?pp ?s0 = Inr s1"
    and 2: "handleCalls_fields E x 1 ?pp s1 = Inr (n, s2)"
    and proc: "temp_back s2 = Inr proc"
    and rest: "(if 1 < length proc then
            rbind (compile_range E x n (length (constList x)) p s2) (\<lambda>s3.
            rbind (push_temp_back p s3) (\<lambda>s4.
            rbind (temp_pop_back s4) (\<lambda>s5.
            rbind (emplace_back p (CALL E) s5) (\<lambda>s6.
              let args_count = length (filter is_argument (drop 1 (constList x)))
              in pushNumber (of_nat args_count) (Some p) s6))))
          else
            rbind (vec_at proc 0) (\<lambda>op_inst.
            rbind (temp_pop_back s2) (\<lambda>s3.
            rbind (handleCalls_operator E x op_inst n 0 p s3) (\<lambda>(exp_count, s4).
            rbind (if exp_count = 1 then emplace_back p op_inst s4 else Inr s4) (\<lambda>s5.
              if 2 < exp_count then
                (if op_inst = ADD E \<or> op_inst = SUB E \<or> op_inst = DIV E \<or> op_inst = MUL E \<or>
                    op_inst = MOD E \<or> op_inst = AND_inst E \<or> op_inst = OR_inst E
                 then Inr s5
                 else rbind (operator_name E op_inst) (\<lambda>name.
                        Inl (ChainedExpression exp_count name x)))
              else Inr s5))))) = Inr s'"
    unfolding handleCalls.simps Let_def
    by (subst (asm) rbind_eq_Inr, elim exE conjE, subst (asm) rbind_eq_Inr, elim exE conjE,
        subst (asm) rbind_eq_Inr, elim exE conjE, simp only: split_paired_all prod.case,
        subst (asm) rbind_eq_Inr, elim exE conjE) blast
  have e2: "extends ?s0 s2"
    using kid [OF kids c 1] handleCalls_fields_extends [OF kids 2] by (rule extends_trans)
  show ?thesis
  proof (cases "1 < length proc")
    case True
    with rest obtain s3 s4 s5 s6 where 3: "compile_range E x n (length (constList x)) p s2 = Inr s3"
      and 4: "push_temp_back p s3 = Inr s4" and 5: "temp_pop_back s4 = Inr s5"
      and 6: "emplace_back p (CALL E) s5 = Inr s6"
      and 7: "pushNumber (of_nat (length (filter is_argument (drop 1 (constList x))))) (Some p) s6
               = Inr s'"
      by (auto simp: rbind_eq_Inr Let_def)
    have "extends ?s0 s4"
      using e2 compile_range_extends [OF kids 3] push_temp_back_extends [OF 4]
      by (blast intro: extends_trans)
    from temp_pop_back_extends [OF this 5] emplace_back_extends [OF 6] pushNumber_extends [OF 7]
    show ?thesis by (blast intro: extends_trans)
  next
    case False
    with rest have "\<exists>op_inst s3 exp_count s4. temp_pop_back s2 = Inr s3 \<and>
        handleCalls_operator E x op_inst n 0 p s3 = Inr (exp_count, s4) \<and> extends s4 s'"
      by (fastforce simp: rbind_eq_Inr simp del: One_nat_def split: if_splits
          dest: emplace_back_extends)
    then obtain op_inst s3 exp_count s4 where 3: "temp_pop_back s2 = Inr s3"
      and 4: "handleCalls_operator E x op_inst n 0 p s3 = Inr (exp_count, s4)"
      and 5: "extends s4 s'"
      by blast
    from temp_pop_back_extends [OF e2 3] handleCalls_operator_extends [OF kids 4] 5
    show ?thesis by (blast intro: extends_trans)
  qed
qed

lemma compile_node_extends_step:
  assumes kids: "\<forall>c \<in> set (constList x). lowers_well E c"
  shows "lowers_well E x"
  unfolding lowers_well_def
proof (intro allI impI)
  fix p s s'
  assume r: "compile_node E x p s = Inr s'"
  note steps = compileSpecific_extends [OF kids] compileIf_extends [OF kids]
    compileSet_extends [OF kids] compileLetMut_extends [OF kids]
    compileFunction_extends [OF kids] compile_range_extends [OF kids]
    compileWhile_extends [OF kids] compilePluginImport_extends compileQuote_extends [OF kids]
    compileDel_extends handleCalls_extends [OF kids] compileSymbol_extends
  show "extends s s'"
  proof (cases "nodeType x = NT_Symbol")
    case True
    with r show ?thesis by (simp add: compile_node.simps [of E x p s] compileSymbol_extends)
  next
    case nsym: False
    show ?thesis
    proof (cases "nodeType x = NT_GetField \<or> nodeType x = NT_String \<or> nodeType x = NT_Number \<or>
        constList x = []")
      case True
      with r nsym show ?thesis
        unfolding compile_node.simps [of E x p s]
        by (auto simp: rbind_eq_Inr split: if_splits dest!: ext_dests intro: extends_trans)
    next
      case False
      with r nsym obtain c0 where c0: "vec_at (constList x) 0 = Inr c0"
        and r': "(if names_specific E c0 then compileSpecific E c0 x p s
          else if nodeType c0 = NT_Keyword then
            rbind (node_keyword c0) (\<lambda>n.
              case n of
                K_If \<Rightarrow> compileIf E x p s
              | K_Set \<Rightarrow> compileSet E x p s
              | K_Let \<Rightarrow> compileLetMut E n x p s
              | K_Mut \<Rightarrow> compileLetMut E n x p s
              | K_Fun \<Rightarrow> compileFunction E x p s
              | K_Begin \<Rightarrow> compile_range E x 1 (length (constList x)) p s
              | K_While \<Rightarrow> compileWhile E x p s
              | K_Import \<Rightarrow> compilePluginImport E x p s
              | K_Quote \<Rightarrow> compileQuote E x p s
              | K_Del \<Rightarrow> compileDel E x p s)
          else handleCalls E x p s) = Inr s'"
        by (auto simp: compile_node.simps [of E x p s] rbind_eq_Inr)
      show ?thesis
      proof (cases "names_specific E c0")
        case True
        with r' show ?thesis by (simp add: steps)
      next
        case nspec: False
        show ?thesis
        proof (cases "nodeType c0 = NT_Keyword")
          case False
          with r' nspec show ?thesis by (simp add: steps)
        next
          case True
          with r' nspec obtain n where "node_keyword c0 = Inr n"
            and "(case n of
                K_If \<Rightarrow> compileIf E x p s
              | K_Set \<Rightarrow> compileSet E x p s
              | K_Let \<Rightarrow> compileLetMut E n x p s
              | K_Mut \<Rightarrow> compileLetMut E n x p s
              | K_Fun \<Rightarrow> compileFunction E x p s
              | K_Begin \<Rightarrow> compile_range E x 1 (length (constList x)) p s
              | K_While \<Rightarrow> compileWhile E x p s
              | K_Import \<Rightarrow> compilePluginImport E x p s
              | K_Quote \<Rightarrow> compileQuote E x p s
              | K_Del \<Rightarrow> compileDel E x p s) = Inr s'"
            by (auto simp: rbind_eq_Inr)
          then show ?thesis by (cases n) (simp_all add: steps)
        qed
      qed
    qed
  qed
qed

lemma lowers_well_all: "lowers_well E x"
proof (induction x rule: measure_induct_rule [of size])
  case (less x)
  have "\<forall>c \<in> set (constList x). lowers_well E c"
  proof
    fix c assume "c \<in> set (constList x)"
    then obtain i where "vec_at (constList x) i = Inr c"
      by (auto simp: in_set_conv_nth vec_at_eq_Inr)
    then have "size c < size x" by (rule vec_at_size)
    then show "lowers_well E c" by (rule less.IH)
  qed
  then show ?case by (rule compile_node_extends_step)
qed

lemma compile_node_extends: "compile_node E x p s = Inr s' \<Longrightarrow> extends s s'"
  using lowers_well_all [of E x] by (auto simp: lowers_well_def)

section \<open>What a successful lowering has done\<close>

lemma compile_range_Inr:
  assumes "compile_range E x i k p s = Inr s'" and "i < k"
  obtains c s1 where "vec_at (constList x) i = Inr c" "compile_node E c p s = Inr s1"
    "compile_range E x (i + 1) k p s1 = Inr s'"
  using assms by (auto simp: compile_range.simps [of E x i k] rbind_eq_Inr)

lemma compile_range_done: "\<not> i < k \<Longrightarrow> compile_range E x i k p s = Inr s"
  by (simp add: compile_range.simps [of E x i k])

lemma compileSpecific_Inr:
  assumes "compileSpecific E c0 x p s = Inr s'"
  obtains name inst s1 s2 where "node_string c0 = Inr name" "isSpecific E name = Some inst"
    "\<not> ((of_nat (countArkObjects (constList x)) - 1 :: u16) < 2 \<and> inst \<noteq> LIST E)"
    "compileSpecific_loop E x (unat (of_nat (length (constList x)) - 1 :: u16)) p s = Inr s1"
    "emplace_back p inst s1 = Inr s2"
    "pushSpecificInstArgc E inst (of_nat (countArkObjects (constList x)) - 1) p s2 = Inr s'"
  using assms
  by (auto simp: compileSpecific.simps rbind_eq_Inr Let_def opt_value_def
      split: if_splits option.splits)

lemma compileSpecific_loop_Inr:
  assumes "compileSpecific_loop E x i p s = Inr s'" and "0 < i"
  obtains j s1 c s2 where "skip_fields (constList x) i = Inr j"
    "compile_range E x j i p s = Inr s1" "vec_at (constList x) i = Inr c"
    "compile_node E c p s1 = Inr s2" "j \<noteq> 0" "compileSpecific_loop E x (j - 1) p s2 = Inr s'"
  using assms
  by (auto simp: compileSpecific_loop.simps [of E x i] rbind_eq_Inr split: if_splits)

lemma compileIf_Inr:
  assumes "compileIf E x p s = Inr s'"
  obtains cond s1 s2 jump_to_if_pos s3 s4 s5 jump_to_end_pos s6 s7 thn s8 where
    "vec_at (constList x) 1 = Inr cond" "compile_node E cond p s = Inr s1"
    "emplace_back p (POP_JUMP_IF_TRUE E) s1 = Inr s2"
    "page_size p s2 = Inr jump_to_if_pos"
    "pushNumber 0 (Some p) s2 = Inr s3"
    "(if length (constList x) = 4
      then rbind (vec_at (constList x) 3) (\<lambda>els. compile_node E els p s3)
      else Inr s3) = Inr s4"
    "emplace_back p (JUMP E) s4 = Inr s5"
    "page_size p s5 = Inr jump_to_end_pos"
    "pushNumber 0 (Some p) s5 = Inr s6"
    "patch_jump p jump_to_if_pos s6 = Inr s7"
    "vec_at (constList x) 2 = Inr thn" "compile_node E thn p s7 = Inr s8"
    "patch_jump p jump_to_end_pos s8 = Inr s'"
  using assms unfolding compileIf.simps rbind_eq_Inr by blast

lemma compileWhile_Inr:
  assumes "compileWhile E x p s = Inr s'"
  obtains current cond s1 s2 jump_to_end_pos s3 body s4 s5 s6 where
    "page_size p s = Inr current"
    "vec_at (constList x) 1 = Inr cond" "compile_node E cond p s = Inr s1"
    "emplace_back p (POP_JUMP_IF_FALSE E) s1 = Inr s2"
    "page_size p s2 = Inr jump_to_end_pos"
    "pushNumber 0 (Some p) s2 = Inr s3"
    "vec_at (constList x) 2 = Inr body" "compile_node E body p s3 = Inr s4"
    "emplace_back p (JUMP E) s4 = Inr s5"
    "pushNumber (of_nat current) (Some p) s5 = Inr s6"
    "patch_jump p jump_to_end_pos s6 = Inr s'"
  using assms unfolding compileWhile.simps rbind_eq_Inr by blast

lemma compileLetMut_Inr:
  assumes "compileLetMut E n x p s = Inr s'"
  obtains c1 name i s1 s2 s3 where
    "vec_at (constList x) 1 = Inr c1" "node_string c1 = Inr name"
    "addSymbol c1 s = Inr (i, s1)"
    "putValue E x p (addDefinedSymbol name s1) = Inr s2"
    "emplace_back p (if n = K_Let then LET E else MUT E) s2 = Inr s3"
    "pushNumber i (Some p) s3 = Inr s'"
  using assms by (auto simp: compileLetMut.simps rbind_eq_Inr)

lemma compileSet_Inr:
  assumes "compileSet E x p s = Inr s'"
  obtains c1 i s1 s2 s3 where
    "vec_at (constList x) 1 = Inr c1"
    "addSymbol c1 s = Inr (i, s1)" "putValue E x p s1 = Inr s2"
    "emplace_back p (STORE E) s2 = Inr s3" "pushNumber i (Some p) s3 = Inr s'"
  using assms by (auto simp: compileSet.simps rbind_eq_Inr)

lemma compileFunction_Inr:
  assumes "compileFunction E x p s = Inr s'"
  obtains args s1 s3 ident s4 s5 s6 body s7 where
    "vec_at (constList x) 1 = Inr args"
    "compileFunction_captures E (constList args) p s = Inr s1"
    "emplace_back p (LOAD_CONST E) (emplace_page s1) = Inr s3"
    "addValue_page (length (m_code_pages s1)) x s3 = Inr (ident, s4)"
    "pushNumber ident (Some p) s4 = Inr s5"
    "compileFunction_args E (constList args) (length (m_code_pages s1)) s5 = Inr s6"
    "vec_at (constList x) 2 = Inr body"
    "compile_node E body (int (length (m_code_pages s1))) s6 = Inr s7"
    "emplace_back (int (length (m_code_pages s1))) (RET E) s7 = Inr s'"
  using assms
  by (auto simp: compileFunction.simps rbind_eq_Inr Let_def emplace_page_def
      simp del: One_nat_def)

lemma compileQuote_Inr:
  assumes "compileQuote E x p s = Inr s'"
  obtains c1 s1 s2 ident s3 s4 where
    "vec_at (constList x) 1 = Inr c1"
    "compile_node E c1 (int (length (m_code_pages s))) (emplace_page s) = Inr s1"
    "emplace_back (int (length (m_code_pages s))) (RET E) s1 = Inr s2"
    "addValue_page (length (m_code_pages s)) x s2 = Inr (ident, s3)"
    "emplace_back p (LOAD_CONST E) s3 = Inr s4"
    "pushNumber ident (Some p) s4 = Inr s'"
  using assms
  by (auto simp: compileQuote.simps rbind_eq_Inr Let_def emplace_page_def
      simp del: One_nat_def)

lemma handleCalls_fields_Inr:
  assumes "handleCalls_fields E x n pp s = Inr (n', s')"
  obtains (stop) "n' = n" "s' = s"
      "n < length (constList x) \<longrightarrow> nodeType (constList x ! n) \<noteq> NT_GetField"
    | (field) c s1 where "vec_at (constList x) n = Inr c" "nodeType c = NT_GetField"
      "compile_node E c pp s = Inr s1" "handleCalls_fields E x (n + 1) pp s1 = Inr (n', s')"
  using assms
  by (auto simp: handleCalls_fields.simps [of E x n] rbind_eq_Inr vec_at_def split: if_splits)

lemma handleCalls_operator_Inr:
  assumes "handleCalls_operator E x op_inst index exp_count p s = Inr (n', s')"
    and "index < length (constList x)"
  obtains c s1 s2 where "vec_at (constList x) index = Inr c" "compile_node E c p s = Inr s1"
    "(if 2 \<le> (if (index + 1 < length (constList x) \<and> is_argument (constList x ! (index + 1))) \<or>
                   index + 1 = length (constList x)
                then exp_count + 1 else exp_count)
      then emplace_back p op_inst s1 else Inr s1) = Inr s2"
    "handleCalls_operator E x op_inst (index + 1)
       (if (index + 1 < length (constList x) \<and> is_argument (constList x ! (index + 1))) \<or>
           index + 1 = length (constList x)
        then exp_count + 1 else exp_count) p s2 = Inr (n', s')"
  using assms
  by (auto simp: handleCalls_operator.simps [of E x op_inst index] rbind_eq_Inr Let_def
      simp del: One_nat_def)

lemma handleCalls_operator_done:
  "\<not> index < length (constList x) \<Longrightarrow>
   handleCalls_operator E x op_inst index exp_count p s = Inr (exp_count, s)"
  by (simp add: handleCalls_operator.simps [of E x op_inst index])


lemma handleCalls_Inr:
  assumes r: "handleCalls E x p s = Inr s'"
  obtains (call) c0 s1 n s2 proc s3 s4 s5 s6 where
      "vec_at (constList x) 0 = Inr c0"
      "compile_node E c0 (- int (length (m_temp_pages (emplace_temp_page s))))
         (emplace_temp_page s) = Inr s1"
      "handleCalls_fields E x 1 (- int (length (m_temp_pages (emplace_temp_page s)))) s1 =
         Inr (n, s2)"
      "temp_back s2 = Inr proc" "1 < length proc"
      "compile_range E x n (length (constList x)) p s2 = Inr s3"
      "push_temp_back p s3 = Inr s4" "temp_pop_back s4 = Inr s5"
      "emplace_back p (CALL E) s5 = Inr s6"
      "pushNumber (of_nat (length (filter is_argument (drop 1 (constList x))))) (Some p) s6 =
         Inr s'"
    | (operator) c0 s1 n s2 proc op_inst s3 exp_count s4 where
      "vec_at (constList x) 0 = Inr c0"
      "compile_node E c0 (- int (length (m_temp_pages (emplace_temp_page s))))
         (emplace_temp_page s) = Inr s1"
      "handleCalls_fields E x 1 (- int (length (m_temp_pages (emplace_temp_page s)))) s1 =
         Inr (n, s2)"
      "temp_back s2 = Inr proc" "\<not> 1 < length proc" "vec_at proc 0 = Inr op_inst"
      "temp_pop_back s2 = Inr s3"
      "handleCalls_operator E x op_inst n 0 p s3 = Inr (exp_count, s4)"
      "(if exp_count = 1 then emplace_back p op_inst s4 else Inr s4) = Inr s'"
      "2 < exp_count \<longrightarrow>
         op_inst = ADD E \<or> op_inst = SUB E \<or> op_inst = DIV E \<or> op_inst = MUL E \<or>
         op_inst = MOD E \<or> op_inst = AND_inst E \<or> op_inst = OR_inst E"
proof -
  let ?s0 = "emplace_temp_page s"
  let ?pp = "- int (length (m_temp_pages ?s0))"
  from r obtain c0 s1 n s2 proc where c: "vec_at (constList x) 0 = Inr c0"
    and 1: "compile_node E c0 ?pp ?s0 = Inr s1"
    and 2: "handleCalls_fields E x 1 ?pp s1 = Inr (n, s2)"
    and proc: "temp_back s2 = Inr proc"
    and rest: "(if 1 < length proc then
            rbind (compile_range E x n (length (constList x)) p s2) (\<lambda>s3.
            rbind (push_temp_back p s3) (\<lambda>s4.
            rbind (temp_pop_back s4) (\<lambda>s5.
            rbind (emplace_back p (CALL E) s5) (\<lambda>s6.
              let args_count = length (filter is_argument (drop 1 (constList x)))
              in pushNumber (of_nat args_count) (Some p) s6))))
          else
            rbind (vec_at proc 0) (\<lambda>op_inst.
            rbind (temp_pop_back s2) (\<lambda>s3.
            rbind (handleCalls_operator E x op_inst n 0 p s3) (\<lambda>(exp_count, s4).
            rbind (if exp_count = 1 then emplace_back p op_inst s4 else Inr s4) (\<lambda>s5.
              if 2 < exp_count then
                (if op_inst = ADD E \<or> op_inst = SUB E \<or> op_inst = DIV E \<or> op_inst = MUL E \<or>
                    op_inst = MOD E \<or> op_inst = AND_inst E \<or> op_inst = OR_inst E
                 then Inr s5
                 else rbind (operator_name E op_inst) (\<lambda>name.
                        Inl (ChainedExpression exp_count name x)))
              else Inr s5))))) = Inr s'"
    unfolding handleCalls.simps Let_def
    by (subst (asm) rbind_eq_Inr, elim exE conjE, subst (asm) rbind_eq_Inr, elim exE conjE,
        subst (asm) rbind_eq_Inr, elim exE conjE, simp only: split_paired_all prod.case,
        subst (asm) rbind_eq_Inr, elim exE conjE) blast
  show thesis
  proof (cases "1 < length proc")
    case True
    with rest obtain s3 s4 s5 s6 where "compile_range E x n (length (constList x)) p s2 = Inr s3"
      "push_temp_back p s3 = Inr s4" "temp_pop_back s4 = Inr s5"
      "emplace_back p (CALL E) s5 = Inr s6"
      "pushNumber (of_nat (length (filter is_argument (drop 1 (constList x))))) (Some p) s6
               = Inr s'"
      by (auto simp: rbind_eq_Inr Let_def)
    with c 1 2 proc True show thesis by (rule call)
  next
    case False
    with rest obtain op_inst s3 where o: "vec_at proc 0 = Inr op_inst"
      and 3: "temp_pop_back s2 = Inr s3"
      and rest': "rbind (handleCalls_operator E x op_inst n 0 p s3) (\<lambda>(exp_count, s4).
            rbind (if exp_count = 1 then emplace_back p op_inst s4 else Inr s4) (\<lambda>s5.
              if 2 < exp_count then
                (if op_inst = ADD E \<or> op_inst = SUB E \<or> op_inst = DIV E \<or> op_inst = MUL E \<or>
                    op_inst = MOD E \<or> op_inst = AND_inst E \<or> op_inst = OR_inst E
                 then Inr s5
                 else rbind (operator_name E op_inst) (\<lambda>name.
                        Inl (ChainedExpression exp_count name x)))
              else Inr s5)) = Inr s'"
      by (auto simp: rbind_eq_Inr simp del: One_nat_def)
    from rest' obtain exp_count s4 where
      4: "handleCalls_operator E x op_inst n 0 p s3 = Inr (exp_count, s4)"
      and rest'': "rbind (if exp_count = 1 then emplace_back p op_inst s4 else Inr s4) (\<lambda>s5.
              if 2 < exp_count then
                (if op_inst = ADD E \<or> op_inst = SUB E \<or> op_inst = DIV E \<or> op_inst = MUL E \<or>
                    op_inst = MOD E \<or> op_inst = AND_inst E \<or> op_inst = OR_inst E
                 then Inr s5
                 else rbind (operator_name E op_inst) (\<lambda>name.
                        Inl (ChainedExpression exp_count name x)))
              else Inr s5) = Inr s'"
      by (cases "handleCalls_operator E x op_inst n 0 p s3") (auto simp del: One_nat_def)
    from rest'' have 5: "(if exp_count = 1 then emplace_back p op_inst s4 else Inr s4) = Inr s'"
      and 6: "2 < exp_count \<longrightarrow>
         op_inst = ADD E \<or> op_inst = SUB E \<or> op_inst = DIV E \<or> op_inst = MUL E \<or>
         op_inst = MOD E \<or> op_inst = AND_inst E \<or> op_inst = OR_inst E"
      by (auto simp: rbind_eq_Inr rbind_def simp del: One_nat_def split: if_splits sum.splits)
    from c 1 2 proc False o 3 4 5 6 show thesis by (rule operator)
  qed
qed

lemma compile_node_Inr:
  assumes r: "compile_node E x p s = Inr s'"
  obtains (symbol) "nodeType x = NT_Symbol" "compileSymbol E x p s = Inr s'"
    | (getfield) i s1 s2 where "nodeType x = NT_GetField" "addSymbol x s = Inr (i, s1)"
        "emplace_back p (GET_FIELD E) s1 = Inr s2" "pushNumber i (Some p) s2 = Inr s'"
    | (const) i s1 s2 where "nodeType x = NT_String \<or> nodeType x = NT_Number"
        "addValue x s = Inr (i, s1)"
        "emplace_back p (LOAD_CONST E) s1 = Inr s2" "pushNumber i (Some p) s2 = Inr s'"
    | (nil) s1 it_builtin where "constList x = []" "emplace_back p (BUILTIN E) s = Inr s1"
        "isBuiltin E ''nil'' = Some it_builtin"
        "pushNumber (of_nat it_builtin) (Some p) s1 = Inr s'"
    | (specific) c0 cs where "x = List (c0 # cs)" "names_specific E c0"
        "compileSpecific E c0 x p s = Inr s'"
    | (keyword) k cs where "x = List (Keyword k # cs)"
        "(case k of
            K_If \<Rightarrow> compileIf E x p s
          | K_Set \<Rightarrow> compileSet E x p s
          | K_Let \<Rightarrow> compileLetMut E k x p s
          | K_Mut \<Rightarrow> compileLetMut E k x p s
          | K_Fun \<Rightarrow> compileFunction E x p s
          | K_Begin \<Rightarrow> compile_range E x 1 (length (constList x)) p s
          | K_While \<Rightarrow> compileWhile E x p s
          | K_Import \<Rightarrow> compilePluginImport E x p s
          | K_Quote \<Rightarrow> compileQuote E x p s
          | K_Del \<Rightarrow> compileDel E x p s) = Inr s'"
    | (call) c0 cs where "x = List (c0 # cs)" "\<not> names_specific E c0"
        "nodeType c0 \<noteq> NT_Keyword" "handleCalls E x p s = Inr s'"
proof (cases x)
  case (List xs)
  show thesis
  proof (cases xs)
    case Nil
    with List r show thesis
      by (auto simp: compile_node.simps rbind_eq_Inr opt_value_def
          split: option.splits intro: nil)
  next
    case (Cons c0 cs)
    show thesis
    proof (cases "names_specific E c0")
      case True
      with List Cons r show thesis
        by (auto simp: compile_node.simps vec_at_def intro: specific)
    next
      case ns: False
      show thesis
      proof (cases c0)
        case (Keyword k)
        with List Cons r ns show thesis
          by (intro keyword [of k cs])
             (auto simp: compile_node.simps vec_at_def
               split: keyword.splits)
      qed (use List Cons r ns in
          \<open>auto simp: compile_node.simps vec_at_def intro: call\<close>)
    qed
  qed
qed (use r in \<open>auto simp: compile_node.simps rbind_eq_Inr opt_value_def
      split: option.splits intro: symbol getfield const nil\<close>)

lemma compile_node_keyword:
  "compile_node E (List (Keyword k # cs)) p s =
     (case k of
        K_If \<Rightarrow> compileIf E (List (Keyword k # cs)) p s
      | K_Set \<Rightarrow> compileSet E (List (Keyword k # cs)) p s
      | K_Let \<Rightarrow> compileLetMut E k (List (Keyword k # cs)) p s
      | K_Mut \<Rightarrow> compileLetMut E k (List (Keyword k # cs)) p s
      | K_Fun \<Rightarrow> compileFunction E (List (Keyword k # cs)) p s
      | K_Begin \<Rightarrow> compile_range E (List (Keyword k # cs)) 1 (length cs + 1) p s
      | K_While \<Rightarrow> compileWhile E (List (Keyword k # cs)) p s
      | K_Import \<Rightarrow> compilePluginImport E (List (Keyword k # cs)) p s
      | K_Quote \<Rightarrow> compileQuote E (List (Keyword k # cs)) p s
      | K_Del \<Rightarrow> compileDel E (List (Keyword k # cs)) p s)"
  by (simp add: compile_node.simps vec_at_def
      names_specific_def split: keyword.splits)

lemma compile_node_call:
  "\<not> names_specific E c0 \<Longrightarrow> nodeType c0 \<noteq> NT_Keyword \<Longrightarrow>
   compile_node E (List (c0 # cs)) p s = handleCalls E (List (c0 # cs)) p s"
  by (simp add: compile_node.simps vec_at_def)

lemma compile_node_specific:
  "names_specific E c0 \<Longrightarrow>
   compile_node E (List (c0 # cs)) p s = compileSpecific E c0 (List (c0 # cs)) p s"
  by (simp add: compile_node.simps vec_at_def)

section \<open>Lowering defines only what the program binds\<close>

lemma keeps_within_refl [simp]: "keeps_within D P s s"
  by (auto simp: keeps_within_def)

lemma keeps_within_trans:
  "keeps_within D P s s1 \<Longrightarrow> keeps_within D P s1 s2 \<Longrightarrow> keeps_within D P s s2"
  by (auto simp: keeps_within_def)

lemma keeps_within_trans3:
  "keeps_within D P s s1 \<Longrightarrow> keeps_within D P s1 s2 \<Longrightarrow> keeps_within D P s2 s3 \<Longrightarrow>
   keeps_within D P s s3"
  by (auto simp: keeps_within_def)

lemma keeps_within_same:
  "m_defined_symbols s' = m_defined_symbols s \<Longrightarrow> m_plugins s' = m_plugins s \<Longrightarrow>
   keeps_within D P s s'"
  by (simp add: keeps_within_def)

lemma set_page_keeps [simp]: "keeps_within D P s (set_page p bs s)"
  by (simp add: keeps_within_def set_page_def)

lemma emplace_back_keeps: "emplace_back p b s = Inr s' \<Longrightarrow> keeps_within D P s s'"
  by (auto simp: emplace_back_eq_Inr)

lemma pushNumber_keeps: "pushNumber n (Some p) s = Inr s' \<Longrightarrow> keeps_within D P s s'"
  by (auto simp: pushNumber_eq_Inr)

lemma patch_jump_keeps: "patch_jump p pos s = Inr s' \<Longrightarrow> keeps_within D P s s'"
  by (auto simp: patch_jump_eq_Inr)

lemma addSymbol_keeps: "addSymbol x s = Inr (i, s') \<Longrightarrow> keeps_within D P s s'"
  by (auto simp: addSymbol_def rbind_eq_Inr keeps_within_def Let_def
      split: option.splits if_splits)

lemma addValue_elem_keeps: "addValue_elem v x s = Inr (i, s') \<Longrightarrow> keeps_within D P s s'"
  by (auto simp: addValue_elem_def keeps_within_def Let_def split: option.splits if_splits)

lemma addValue_keeps: "addValue x s = Inr (i, s') \<Longrightarrow> keeps_within D P s s'"
  by (auto simp: addValue_def rbind_eq_Inr dest: addValue_elem_keeps)

lemma addValue_page_keeps: "addValue_page a x s = Inr (i, s') \<Longrightarrow> keeps_within D P s s'"
  by (auto simp: addValue_page_def dest: addValue_elem_keeps)

lemma emplace_page_keeps [simp]: "keeps_within D P s (emplace_page s)"
  by (simp add: emplace_page_def keeps_within_def)

lemma emplace_temp_page_keeps [simp]: "keeps_within D P s (emplace_temp_page s)"
  by (simp add: emplace_temp_page_def keeps_within_def)

lemma temp_pop_back_keeps: "temp_pop_back s = Inr s' \<Longrightarrow> keeps_within D P s s'"
  by (auto simp: temp_pop_back_def keeps_within_def split: if_splits)

lemma push_temp_back_keeps: "push_temp_back p s = Inr s' \<Longrightarrow> keeps_within D P s s'"
  by (auto simp: push_temp_back_def rbind_eq_Inr split: if_splits)

lemma pushSpecificInstArgc_keeps:
  "pushSpecificInstArgc E inst argc p s = Inr s' \<Longrightarrow> keeps_within D P s s'"
  by (auto simp: pushSpecificInstArgc_def split: if_splits dest: pushNumber_keeps)

lemma addDefinedSymbol_keeps:
  "name \<in> D \<or> name \<in> set (m_defined_symbols s) \<Longrightarrow> keeps_within D P s (addDefinedSymbol name s)"
  by (auto simp: addDefinedSymbol_def keeps_within_def)

lemmas keeps_dests = emplace_back_keeps pushNumber_keeps addSymbol_keeps addValue_keeps
  addValue_page_keeps

lemma compileDel_keeps: "compileDel E x p s = Inr s' \<Longrightarrow> keeps_within D P s s'"
  by (auto simp: compileDel_def rbind_eq_Inr dest!: keeps_dests intro: keeps_within_trans)

lemma compileSymbol_keeps: "compileSymbol E x p s = Inr s' \<Longrightarrow> keeps_within D P s s'"
  by (auto simp: compileSymbol_def rbind_eq_Inr split: option.splits
      dest!: keeps_dests intro: keeps_within_trans)

lemma compilePluginImport_keeps:
  assumes r: "compilePluginImport E x p s = Inr s'"
    and P: "\<And>c1 name. vec_at (constList x) 1 = Inr c1 \<Longrightarrow> node_string c1 = Inr name \<Longrightarrow> name \<in> P"
  shows "keeps_within D P s s'"
proof -
  from r obtain c1 ident s1 name s2 where c: "vec_at (constList x) 1 = Inr c1"
    and 1: "addValue c1 s = Inr (ident, s1)" and n: "node_string c1 = Inr name"
    and 2: "emplace_back p (PLUGIN E) (s1\<lparr>m_plugins := m_plugins s1 @ [name]\<rparr>) = Inr s2"
    and 3: "pushNumber ident (Some p) s2 = Inr s'"
    by (auto simp: compilePluginImport_def rbind_eq_Inr)
  have "keeps_within D P s1 (s1\<lparr>m_plugins := m_plugins s1 @ [name]\<rparr>)"
    using P [OF c n] by (simp add: keeps_within_def)
  with addValue_keeps [OF 1, of D P] emplace_back_keeps [OF 2, of D P]
    pushNumber_keeps [OF 3, of D P]
  show ?thesis by (blast intro: keeps_within_trans)
qed

lemma compileFunction_captures_keeps:
  "compileFunction_captures E args p s = Inr s' \<Longrightarrow> keeps_within D P s s'"
proof (induction args arbitrary: s)
  case Nil
  then show ?case by simp
next
  case (Cons it rest)
  show ?case
  proof (cases "nodeType it = NT_Capture")
    case True
    with Cons.prems obtain name s1 var_id s2 s3 where
      d: "name \<in> set (m_defined_symbols s)"
      and 1: "emplace_back p (CAPTURE E) s = Inr s1"
      and 2: "addSymbol it (addDefinedSymbol name s1) = Inr (var_id, s2)"
      and 3: "pushNumber var_id (Some p) s2 = Inr s3"
      and 4: "compileFunction_captures E rest p s3 = Inr s'"
      by (auto simp: rbind_eq_Inr split: if_splits)
    from 1 d have "name \<in> set (m_defined_symbols s1)"
      by (auto simp: emplace_back_eq_Inr set_page_def)
    then have "keeps_within D P s1 (addDefinedSymbol name s1)"
      by (simp add: addDefinedSymbol_keeps)
    with emplace_back_keeps [OF 1, of D P] addSymbol_keeps [OF 2, of D P]
      pushNumber_keeps [OF 3, of D P] Cons.IH [OF 4]
    show ?thesis by (blast intro: keeps_within_trans)
  next
    case False
    with Cons show ?thesis by simp
  qed
qed

lemma compileFunction_args_keeps:
  assumes D: "\<forall>it \<in> set args. nodeType it = NT_Symbol \<longrightarrow> set (node_names it) \<subseteq> D"
  shows "compileFunction_args E args page_id s = Inr s' \<Longrightarrow> keeps_within D P s s'"
  using D
proof (induction args arbitrary: s)
  case Nil
  then show ?case by simp
next
  case (Cons it rest)
  show ?case
  proof (cases "nodeType it = NT_Symbol")
    case True
    with Cons.prems obtain name s1 var_id s2 s3 where
      1: "emplace_back (int page_id) (MUT E) s = Inr s1"
      and 2: "addSymbol it s1 = Inr (var_id, s2)"
      and n: "node_string it = Inr name"
      and 3: "pushNumber var_id (Some (int page_id)) (addDefinedSymbol name s2) = Inr s3"
      and 4: "compileFunction_args E rest page_id s3 = Inr s'"
      by (auto simp: rbind_eq_Inr split: if_splits)
    from Cons.prems(2) True n have "name \<in> D" by (simp add: node_names_def)
    then have "keeps_within D P s2 (addDefinedSymbol name s2)"
      by (simp add: addDefinedSymbol_keeps)
    moreover have "keeps_within D P s3 s'"
      using Cons.IH [OF 4] Cons.prems(2) by simp
    ultimately show ?thesis
      using emplace_back_keeps [OF 1, of D P] addSymbol_keeps [OF 2, of D P]
        pushNumber_keeps [OF 3, of D P]
      by (blast intro: keeps_within_trans)
  next
    case False
    with Cons show ?thesis by simp
  qed
qed

text \<open>A node keeps within \<open>D\<close> and \<open>P\<close> when every successful lowering of it does.\<close>

lemma kid_keeps:
  "\<forall>c \<in> set (constList x). \<forall>p s s'. compile_node E c p s = Inr s' \<longrightarrow> keeps_within D P s s' \<Longrightarrow>
   vec_at (constList x) i = Inr c \<Longrightarrow> compile_node E c p s = Inr s' \<Longrightarrow> keeps_within D P s s'"
  by (auto simp: vec_at_eq_Inr dest: nth_mem)

lemma compile_range_keeps:
  assumes kids: "\<forall>c \<in> set (constList x). \<forall>p s s'.
      compile_node E c p s = Inr s' \<longrightarrow> keeps_within D P s s'"
  shows "compile_range E x i k p s = Inr s' \<Longrightarrow> keeps_within D P s s'"
proof (induction "k - i" arbitrary: i s)
  case 0
  then show ?case by (simp add: compile_range.simps [of E x i k])
next
  case (Suc n)
  then have lt: "i < k" by simp
  from Suc.prems lt obtain c s1 where c: "vec_at (constList x) i = Inr c"
    and 1: "compile_node E c p s = Inr s1"
    and 2: "compile_range E x (i + 1) k p s1 = Inr s'"
    by (rule compile_range_Inr)
  have "keeps_within D P s1 s'" using Suc.hyps(1) [of "i + 1" s1] Suc.hyps(2) 2 by simp
  with kid_keeps [OF kids c 1] show ?case by (rule keeps_within_trans)
qed

lemma putValue_keeps:
  "\<forall>c \<in> set (constList x). \<forall>p s s'. compile_node E c p s = Inr s' \<longrightarrow> keeps_within D P s s' \<Longrightarrow>
   putValue E x p s = Inr s' \<Longrightarrow> keeps_within D P s s'"
  by (simp add: putValue.simps compile_range_keeps)

lemma compileSpecific_loop_keeps:
  assumes kids: "\<forall>c \<in> set (constList x). \<forall>p s s'.
      compile_node E c p s = Inr s' \<longrightarrow> keeps_within D P s s'"
  shows "compileSpecific_loop E x i p s = Inr s' \<Longrightarrow> keeps_within D P s s'"
proof (induction i arbitrary: s rule: less_induct)
  case (less i)
  show ?case
  proof (cases "0 < i")
    case False
    with less.prems show ?thesis by (simp add: compileSpecific_loop.simps [of E x i])
  next
    case True
    with less.prems obtain j s1 c s2 where j: "skip_fields (constList x) i = Inr j"
      and 1: "compile_range E x j i p s = Inr s1"
      and c: "vec_at (constList x) i = Inr c"
      and 2: "compile_node E c p s1 = Inr s2"
      and 3: "j \<noteq> 0" "compileSpecific_loop E x (j - 1) p s2 = Inr s'"
      by (auto simp: compileSpecific_loop.simps [of E x i] rbind_eq_Inr split: if_splits)
    from skip_fields_le [OF j] 3(1) True have "j - 1 < i" by simp
    from less.IH [OF this 3(2)] have "keeps_within D P s2 s'" .
    with compile_range_keeps [OF kids 1] kid_keeps [OF kids c 2] show ?thesis
      by (blast intro: keeps_within_trans)
  qed
qed

lemma compileSpecific_keeps:
  assumes kids: "\<forall>c \<in> set (constList x). \<forall>p s s'.
      compile_node E c p s = Inr s' \<longrightarrow> keeps_within D P s s'"
    and r: "compileSpecific E c0 x p s = Inr s'"
  shows "keeps_within D P s s'"
proof -
  from r obtain inst i s1 s2 argc where 1: "compileSpecific_loop E x i p s = Inr s1"
    and 2: "emplace_back p inst s1 = Inr s2"
    and 3: "pushSpecificInstArgc E inst argc p s2 = Inr s'"
    by (auto simp: compileSpecific.simps rbind_eq_Inr Let_def split: if_splits)
  from compileSpecific_loop_keeps [OF kids 1] emplace_back_keeps [OF 2, of D P]
    pushSpecificInstArgc_keeps [OF 3, of D P]
  show ?thesis by (blast intro: keeps_within_trans)
qed

lemma compileIf_keeps:
  assumes kids: "\<forall>c \<in> set (constList x). \<forall>p s s'.
      compile_node E c p s = Inr s' \<longrightarrow> keeps_within D P s s'"
    and r: "compileIf E x p s = Inr s'"
  shows "keeps_within D P s s'"
  using r
proof (rule compileIf_Inr)
  fix cond s1 s2 jump_to_if_pos s3 s4 s5 jump_to_end_pos s6 s7 thn s8
  assume c: "vec_at (constList x) 1 = Inr cond" and 1: "compile_node E cond p s = Inr s1"
    and 2: "emplace_back p (POP_JUMP_IF_TRUE E) s1 = Inr s2"
    and 3: "pushNumber 0 (Some p) s2 = Inr s3"
    and 4: "(if length (constList x) = 4
            then rbind (vec_at (constList x) 3) (\<lambda>els. compile_node E els p s3)
            else Inr s3) = Inr s4"
    and 5: "emplace_back p (JUMP E) s4 = Inr s5"
    and 6: "pushNumber 0 (Some p) s5 = Inr s6"
    and 7: "patch_jump p jump_to_if_pos s6 = Inr s7"
    and t: "vec_at (constList x) 2 = Inr thn" and 8: "compile_node E thn p s7 = Inr s8"
    and 9: "patch_jump p jump_to_end_pos s8 = Inr s'"
  have e34: "keeps_within D P s3 s4"
  proof (cases "length (constList x) = 4")
    case True
    with 4 obtain els where "vec_at (constList x) 3 = Inr els" "compile_node E els p s3 = Inr s4"
      by (auto simp: rbind_eq_Inr)
    then show ?thesis by (rule kid_keeps [OF kids])
  next
    case False
    with 4 show ?thesis by simp
  qed
  have a: "keeps_within D P s s3"
    using kid_keeps [OF kids c 1] emplace_back_keeps [OF 2] pushNumber_keeps [OF 3]
    by (rule keeps_within_trans3)
  have b: "keeps_within D P s3 s6"
    using e34 emplace_back_keeps [OF 5] pushNumber_keeps [OF 6]
    by (rule keeps_within_trans3)
  have c: "keeps_within D P s6 s'"
    using patch_jump_keeps [OF 7] kid_keeps [OF kids t 8] patch_jump_keeps [OF 9]
    by (rule keeps_within_trans3)
  from a b c show ?thesis by (rule keeps_within_trans3)
qed

lemma compileWhile_keeps:
  assumes kids: "\<forall>c \<in> set (constList x). \<forall>p s s'.
      compile_node E c p s = Inr s' \<longrightarrow> keeps_within D P s s'"
    and r: "compileWhile E x p s = Inr s'"
  shows "keeps_within D P s s'"
  using r
proof (rule compileWhile_Inr)
  fix current cond s1 s2 jump_to_end_pos s3 body s4 s5 s6
  assume c: "vec_at (constList x) 1 = Inr cond" and 1: "compile_node E cond p s = Inr s1"
    and 2: "emplace_back p (POP_JUMP_IF_FALSE E) s1 = Inr s2"
    and 3: "pushNumber 0 (Some p) s2 = Inr s3"
    and b: "vec_at (constList x) 2 = Inr body" and 4: "compile_node E body p s3 = Inr s4"
    and 5: "emplace_back p (JUMP E) s4 = Inr s5"
    and 6: "pushNumber (of_nat current) (Some p) s5 = Inr s6"
    and 7: "patch_jump p jump_to_end_pos s6 = Inr s'"
  have a: "keeps_within D P s s3"
    using kid_keeps [OF kids c 1] emplace_back_keeps [OF 2] pushNumber_keeps [OF 3]
    by (rule keeps_within_trans3)
  have b: "keeps_within D P s3 s6"
    using kid_keeps [OF kids b 4] emplace_back_keeps [OF 5] pushNumber_keeps [OF 6]
    by (rule keeps_within_trans3)
  from a b patch_jump_keeps [OF 7] show ?thesis by (rule keeps_within_trans3)
qed

lemma compileLetMut_keeps:
  assumes kids: "\<forall>c \<in> set (constList x). \<forall>p s s'.
      compile_node E c p s = Inr s' \<longrightarrow> keeps_within D P s s'"
    and D: "\<And>c1 name. vec_at (constList x) 1 = Inr c1 \<Longrightarrow> node_string c1 = Inr name \<Longrightarrow> name \<in> D"
    and r: "compileLetMut E n x p s = Inr s'"
  shows "keeps_within D P s s'"
proof -
  from r obtain c1 name i s1 s2 s3 where
    c: "vec_at (constList x) 1 = Inr c1" and n: "node_string c1 = Inr name"
    and 1: "addSymbol c1 s = Inr (i, s1)"
    and 2: "putValue E x p (addDefinedSymbol name s1) = Inr s2"
    and 3: "emplace_back p (if n = K_Let then LET E else MUT E) s2 = Inr s3"
    and 4: "pushNumber i (Some p) s3 = Inr s'"
    by (auto simp: compileLetMut.simps rbind_eq_Inr)
  have "keeps_within D P s1 (addDefinedSymbol name s1)"
    using D [OF c n] by (simp add: addDefinedSymbol_keeps)
  with addSymbol_keeps [OF 1] have "keeps_within D P s (addDefinedSymbol name s1)"
    by (rule keeps_within_trans)
  moreover have "keeps_within D P (addDefinedSymbol name s1) s'"
    using putValue_keeps [OF kids 2] emplace_back_keeps [OF 3] pushNumber_keeps [OF 4]
    by (rule keeps_within_trans3)
  ultimately show ?thesis by (rule keeps_within_trans)
qed

lemma compileSet_keeps:
  assumes kids: "\<forall>c \<in> set (constList x). \<forall>p s s'.
      compile_node E c p s = Inr s' \<longrightarrow> keeps_within D P s s'"
    and r: "compileSet E x p s = Inr s'"
  shows "keeps_within D P s s'"
proof -
  from r obtain c1 i s1 s2 s3 where
    1: "addSymbol c1 s = Inr (i, s1)" and 2: "putValue E x p s1 = Inr s2"
    and 3: "emplace_back p (STORE E) s2 = Inr s3" and 4: "pushNumber i (Some p) s3 = Inr s'"
    by (auto simp: compileSet.simps rbind_eq_Inr)
  have "keeps_within D P s1 s'"
    using putValue_keeps [OF kids 2] emplace_back_keeps [OF 3] pushNumber_keeps [OF 4]
    by (rule keeps_within_trans3)
  with addSymbol_keeps [OF 1] show ?thesis by (rule keeps_within_trans)
qed

lemma compileFunction_keeps:
  assumes kids: "\<forall>c \<in> set (constList x). \<forall>p s s'.
      compile_node E c p s = Inr s' \<longrightarrow> keeps_within D P s s'"
    and D: "\<And>args. vec_at (constList x) 1 = Inr args \<Longrightarrow>
       \<forall>it \<in> set (constList args). nodeType it = NT_Symbol \<longrightarrow> set (node_names it) \<subseteq> D"
    and r: "compileFunction E x p s = Inr s'"
  shows "keeps_within D P s s'"
  using r
proof (rule compileFunction_Inr)
  fix args s1 s3 ident s4 s5 s6 body s7
  assume ar: "vec_at (constList x) 1 = Inr args"
    and 1: "compileFunction_captures E (constList args) p s = Inr s1"
    and 2: "emplace_back p (LOAD_CONST E) (emplace_page s1) = Inr s3"
    and 3: "addValue_page (length (m_code_pages s1)) x s3 = Inr (ident, s4)"
    and 4: "pushNumber ident (Some p) s4 = Inr s5"
    and 5: "compileFunction_args E (constList args) (length (m_code_pages s1)) s5 = Inr s6"
    and bd: "vec_at (constList x) 2 = Inr body"
    and 7: "compile_node E body (int (length (m_code_pages s1))) s6 = Inr s7"
    and 8: "emplace_back (int (length (m_code_pages s1))) (RET E) s7 = Inr s'"
  have a: "keeps_within D P s s3"
    using compileFunction_captures_keeps [OF 1] emplace_page_keeps emplace_back_keeps [OF 2]
    by (rule keeps_within_trans3)
  have b: "keeps_within D P s3 s6"
    using addValue_page_keeps [OF 3] pushNumber_keeps [OF 4]
      compileFunction_args_keeps [OF D [OF ar] 5]
    by (rule keeps_within_trans3)
  from a b have "keeps_within D P s s6" by (rule keeps_within_trans)
  then show ?thesis
    using kid_keeps [OF kids bd 7] emplace_back_keeps [OF 8] by (rule keeps_within_trans3)
qed

lemma compileQuote_keeps:
  assumes kids: "\<forall>c \<in> set (constList x). \<forall>p s s'.
      compile_node E c p s = Inr s' \<longrightarrow> keeps_within D P s s'"
    and r: "compileQuote E x p s = Inr s'"
  shows "keeps_within D P s s'"
  using r
proof (rule compileQuote_Inr)
  fix c1 s1 s2 ident s3 s4
  assume c: "vec_at (constList x) 1 = Inr c1"
    and 1: "compile_node E c1 (int (length (m_code_pages s))) (emplace_page s) = Inr s1"
    and 2: "emplace_back (int (length (m_code_pages s))) (RET E) s1 = Inr s2"
    and 3: "addValue_page (length (m_code_pages s)) x s2 = Inr (ident, s3)"
    and 4: "emplace_back p (LOAD_CONST E) s3 = Inr s4"
    and 5: "pushNumber ident (Some p) s4 = Inr s'"
  have a: "keeps_within D P s s2"
    using emplace_page_keeps kid_keeps [OF kids c 1] emplace_back_keeps [OF 2]
    by (rule keeps_within_trans3)
  have b: "keeps_within D P s2 s'"
    using addValue_page_keeps [OF 3] emplace_back_keeps [OF 4] pushNumber_keeps [OF 5]
    by (rule keeps_within_trans3)
  from a b show ?thesis by (rule keeps_within_trans)
qed

lemma handleCalls_fields_keeps:
  assumes kids: "\<forall>c \<in> set (constList x). \<forall>p s s'.
      compile_node E c p s = Inr s' \<longrightarrow> keeps_within D P s s'"
  shows "handleCalls_fields E x n p s = Inr (n', s') \<Longrightarrow> keeps_within D P s s'"
proof (induction "length (constList x) - n" arbitrary: n s)
  case 0
  then show ?case by (simp add: handleCalls_fields.simps [of E x n])
next
  case (Suc m)
  then have lt: "n < length (constList x)" by simp
  then obtain c where c: "vec_at (constList x) n = Inr c" by (simp add: vec_at_eq_Inr)
  show ?case
  proof (cases "nodeType c = NT_GetField")
    case False
    with Suc.prems lt c show ?thesis by (simp add: handleCalls_fields.simps [of E x n])
  next
    case True
    with Suc.prems lt c obtain s1 where 1: "compile_node E c p s = Inr s1"
      and 2: "handleCalls_fields E x (n + 1) p s1 = Inr (n', s')"
      by (auto simp: handleCalls_fields.simps [of E x n] rbind_eq_Inr)
    have "keeps_within D P s1 s'" using Suc.hyps(1) [of "n + 1" s1] Suc.hyps(2) 2 by simp
    with kid_keeps [OF kids c 1] show ?thesis by (rule keeps_within_trans)
  qed
qed

lemma handleCalls_operator_keeps:
  assumes kids: "\<forall>c \<in> set (constList x). \<forall>p s s'.
      compile_node E c p s = Inr s' \<longrightarrow> keeps_within D P s s'"
  shows "handleCalls_operator E x op_inst index exp_count p s = Inr (n', s') \<Longrightarrow>
    keeps_within D P s s'"
proof (induction "length (constList x) - index" arbitrary: index exp_count s)
  case 0
  then show ?case by (simp add: handleCalls_operator.simps [of E x op_inst index])
next
  case (Suc m)
  then have lt: "index < length (constList x)" by simp
  with Suc.prems obtain c s1 s2 exp_count' where c: "vec_at (constList x) index = Inr c"
    and 1: "compile_node E c p s = Inr s1"
    and 2: "(if 2 \<le> exp_count' then emplace_back p op_inst s1 else Inr s1) = Inr s2"
    and 3: "handleCalls_operator E x op_inst (index + 1) exp_count' p s2 = Inr (n', s')"
    by (auto simp: handleCalls_operator.simps [of E x op_inst index] rbind_eq_Inr Let_def
        simp del: One_nat_def)
  have "keeps_within D P s1 s2" using 2 by (auto split: if_splits dest: emplace_back_keeps)
  moreover have "keeps_within D P s2 s'"
    using Suc.hyps(1) [of "index + 1" exp_count' s2] Suc.hyps(2) 3 by simp
  ultimately show ?case using kid_keeps [OF kids c 1] by (blast intro: keeps_within_trans)
qed

lemma handleCalls_keeps:
  assumes kids: "\<forall>c \<in> set (constList x). \<forall>p s s'.
      compile_node E c p s = Inr s' \<longrightarrow> keeps_within D P s s'"
    and r: "handleCalls E x p s = Inr s'"
  shows "keeps_within D P s s'"
  using r
proof (cases rule: handleCalls_Inr)
  case (call c0 s1 n s2 proc s3 s4 s5 s6)
  have a: "keeps_within D P s s2"
    using emplace_temp_page_keeps kid_keeps [OF kids call(1,2)]
      handleCalls_fields_keeps [OF kids call(3)]
    by (rule keeps_within_trans3)
  have b: "keeps_within D P s2 s5"
    using compile_range_keeps [OF kids call(6)] push_temp_back_keeps [OF call(7)]
      temp_pop_back_keeps [OF call(8)]
    by (rule keeps_within_trans3)
  from a b have "keeps_within D P s s5" by (rule keeps_within_trans)
  then show ?thesis
    using emplace_back_keeps [OF call(9)] pushNumber_keeps [OF call(10)]
    by (rule keeps_within_trans3)
next
  case (operator c0 s1 n s2 proc op_inst s3 exp_count s4)
  have a: "keeps_within D P s s2"
    using emplace_temp_page_keeps kid_keeps [OF kids operator(1,2)]
      handleCalls_fields_keeps [OF kids operator(3)]
    by (rule keeps_within_trans3)
  have "keeps_within D P s4 s'"
    using operator(9) by (auto split: if_splits dest: emplace_back_keeps)
  with temp_pop_back_keeps [OF operator(7)] handleCalls_operator_keeps [OF kids operator(8)]
  have "keeps_within D P s2 s'" by (rule keeps_within_trans3)
  with a show ?thesis by (rule keeps_within_trans)
qed

lemma declared_subset: "set (declared xs) \<subseteq> set (binder_names (List xs))"
  by simp

lemma binder_names_child: "c \<in> set xs \<Longrightarrow> set (binder_names c) \<subseteq> set (binder_names (List xs))"
  by auto

lemma imported_plugins_child:
  "c \<in> set xs \<Longrightarrow> set (imported_plugins c) \<subseteq> set (imported_plugins (List xs))"
  by auto

lemma compile_node_keeps_step:
  assumes kids: "\<forall>c \<in> set (constList x). \<forall>p s s'.
      compile_node E c p s = Inr s' \<longrightarrow> keeps_within D P s s'"
    and D: "set (declared (constList x)) \<subseteq> D" and P: "set (imported (constList x)) \<subseteq> P"
    and r: "compile_node E x p s = Inr s'"
  shows "keeps_within D P s s'"
  using r
proof (cases rule: compile_node_Inr)
  case symbol
  then show ?thesis by (simp add: compileSymbol_keeps)
next
  case (getfield i s1 s2)
  from addSymbol_keeps [OF getfield(2)] emplace_back_keeps [OF getfield(3)]
    pushNumber_keeps [OF getfield(4)]
  show ?thesis by (rule keeps_within_trans3)
next
  case (const i s1 s2)
  from addValue_keeps [OF const(2)] emplace_back_keeps [OF const(3)]
    pushNumber_keeps [OF const(4)]
  show ?thesis by (rule keeps_within_trans3)
next
  case (nil s1 it_builtin)
  from emplace_back_keeps [OF nil(2)] pushNumber_keeps [OF nil(4)]
  show ?thesis by (rule keeps_within_trans)
next
  case (specific c0 cs)
  from compileSpecific_keeps [OF kids specific(3)] show ?thesis .
next
  case (call c0 cs)
  from handleCalls_keeps [OF kids call(4)] show ?thesis .
next
  case (keyword k cs)
  have dl: "name \<in> D" if "k = K_Let \<or> k = K_Mut" "vec_at (constList x) 1 = Inr c1"
    "node_string c1 = Inr name" for c1 name
    using that D keyword(1) by (cases cs) (auto simp: vec_at_eq_Inr node_names_def)
  have imp: "name \<in> P" if "k = K_Import" "vec_at (constList x) 1 = Inr c1"
    "node_string c1 = Inr name" for c1 name
    using that P keyword(1) by (cases cs) (auto simp: vec_at_eq_Inr node_names_def)
  have args: "\<forall>it \<in> set (constList args). nodeType it = NT_Symbol \<longrightarrow> set (node_names it) \<subseteq> D"
    if "k = K_Fun" "vec_at (constList x) 1 = Inr args" for args
    using that D keyword(1) by (cases cs) (auto simp: vec_at_eq_Inr)
  show ?thesis
  proof (cases k)
    case K_If
    with keyword(2) show ?thesis by (simp add: compileIf_keeps [OF kids])
  next
    case K_Let
    with keyword(2) have "compileLetMut E k x p s = Inr s'" by simp
    then show ?thesis using dl K_Let by (intro compileLetMut_keeps [OF kids]) auto
  next
    case K_Mut
    with keyword(2) have "compileLetMut E k x p s = Inr s'" by simp
    then show ?thesis using dl K_Mut by (intro compileLetMut_keeps [OF kids]) auto
  next
    case K_Set
    with keyword(2) show ?thesis by (simp add: compileSet_keeps [OF kids])
  next
    case K_Fun
    with keyword(2) have "compileFunction E x p s = Inr s'" by simp
    then show ?thesis using args K_Fun by (intro compileFunction_keeps [OF kids]) auto
  next
    case K_Begin
    with keyword(2) show ?thesis by (simp add: compile_range_keeps [OF kids])
  next
    case K_While
    with keyword(2) show ?thesis by (simp add: compileWhile_keeps [OF kids])
  next
    case K_Import
    with keyword(2) have "compilePluginImport E x p s = Inr s'" by simp
    then show ?thesis using imp K_Import by (intro compilePluginImport_keeps) auto
  next
    case K_Quote
    with keyword(2) show ?thesis by (simp add: compileQuote_keeps [OF kids])
  next
    case K_Del
    with keyword(2) show ?thesis by (simp add: compileDel_keeps)
  qed
qed

lemma compile_node_keeps:
  "set (binder_names x) \<subseteq> D \<Longrightarrow> set (imported_plugins x) \<subseteq> P \<Longrightarrow>
   compile_node E x p s = Inr s' \<Longrightarrow> keeps_within D P s s'"
proof (induction x arbitrary: p s s' rule: measure_induct_rule [of size])
  case (less x)
  have kids: "\<forall>c \<in> set (constList x). \<forall>p s s'.
      compile_node E c p s = Inr s' \<longrightarrow> keeps_within D P s s'"
  proof (intro ballI allI impI)
    fix c p s s'
    assume c: "c \<in> set (constList x)" and r: "compile_node E c p s = Inr s'"
    then obtain i where "vec_at (constList x) i = Inr c"
      by (auto simp: in_set_conv_nth vec_at_eq_Inr)
    then have sz: "size c < size x" by (rule vec_at_size)
    from c obtain xs where x: "x = List xs" by (cases x) auto
    from c x less.prems(1,2) have "set (binder_names c) \<subseteq> D" "set (imported_plugins c) \<subseteq> P"
      by auto
    from less.IH [OF sz this r] show "keeps_within D P s s'" .
  qed
  have "set (declared (constList x)) \<subseteq> D" "set (imported (constList x)) \<subseteq> P"
    using less.prems(1,2) by (cases x; auto)+
  with kids show ?case using less.prems(3) by (rule compile_node_keeps_step)
qed

section \<open>A use registers the name\<close>

lemma keeps_symbols_refl [simp]: "keeps_symbols s s"
  by (simp add: keeps_symbols_def)

lemma keeps_symbols_trans: "keeps_symbols s s1 \<Longrightarrow> keeps_symbols s1 s2 \<Longrightarrow> keeps_symbols s s2"
  by (auto simp: keeps_symbols_def)

lemma keeps_symbols_trans3:
  "keeps_symbols s s1 \<Longrightarrow> keeps_symbols s1 s2 \<Longrightarrow> keeps_symbols s2 s3 \<Longrightarrow> keeps_symbols s s3"
  by (auto simp: keeps_symbols_def)

lemma extends_symbols: "extends s s' \<Longrightarrow> keeps_symbols s s'"
  by (auto simp: extends_def keeps_symbols_def dest: set_mono_prefix)

lemma patch_jump_symbols: "patch_jump p pos s = Inr s' \<Longrightarrow> keeps_symbols s s'"
  by (auto simp: patch_jump_eq_Inr keeps_symbols_def set_page_def)

lemma temp_pop_back_symbols: "temp_pop_back s = Inr s' \<Longrightarrow> keeps_symbols s s'"
  by (auto simp: temp_pop_back_def keeps_symbols_def split: if_splits)

lemma registered_mono: "registered v s \<Longrightarrow> keeps_symbols s s' \<Longrightarrow> registered v s'"
  by (auto simp: registered_def keeps_symbols_def)

lemma registered_extends: "registered v s \<Longrightarrow> extends s s' \<Longrightarrow> registered v s'"
  by (erule registered_mono) (rule extends_symbols)

lemma lowered_in_mono: "lowered_in E c s \<Longrightarrow> keeps_symbols s s' \<Longrightarrow> lowered_in E c s'"
  unfolding lowered_in_def by (blast intro: keeps_symbols_trans)

lemma lowered_in_extends: "lowered_in E c s \<Longrightarrow> extends s s' \<Longrightarrow> lowered_in E c s'"
  by (erule lowered_in_mono) (rule extends_symbols)

lemma lowered_inI:
  "compile_node E c p sa = Inr sb \<Longrightarrow> keeps_symbols sb s' \<Longrightarrow> lowered_in E c s'"
  unfolding lowered_in_def by blast

lemma lowered_inI_extends:
  "compile_node E c p sa = Inr sb \<Longrightarrow> extends sb s' \<Longrightarrow> lowered_in E c s'"
  by (erule lowered_inI) (rule extends_symbols)

lemma lowered_in_registered:
  "lowered_in E c s' \<Longrightarrow> (\<And>p sa sb. compile_node E c p sa = Inr sb \<Longrightarrow> registered v sb) \<Longrightarrow>
   registered v s'"
  unfolding lowered_in_def by (blast intro: registered_mono)

lemma all_kids: "\<forall>c \<in> set (constList x). lowers_well E c"
  by (simp add: lowers_well_all)

lemmas compile_range_ext = compile_range_extends [OF all_kids]
lemmas putValue_ext = putValue_extends [OF all_kids]
lemmas compileSpecific_loop_ext = compileSpecific_loop_extends [OF all_kids]
lemmas handleCalls_fields_ext = handleCalls_fields_extends [OF all_kids]
lemmas handleCalls_operator_ext = handleCalls_operator_extends [OF all_kids]

lemma find_symbol_registered:
  "find_symbol tbl x = Inr (Some i) \<Longrightarrow> node_string x = Inr v \<Longrightarrow>
   \<exists>n \<in> set tbl. node_string n = Inr v"
  by (induction tbl arbitrary: i) (auto simp: rbind_eq_Inr split: if_splits)

lemma addSymbol_registers:
  "addSymbol x s = Inr (i, s') \<Longrightarrow> node_string x = Inr v \<Longrightarrow> registered v s'"
  by (auto simp: addSymbol_def rbind_eq_Inr registered_def Let_def
      split: option.splits if_splits dest: find_symbol_registered)

lemma compileSymbol_registers:
  assumes "compileSymbol E (Symbol v) p s = Inr s'"
    and "isBuiltin E v = None" and "isOperator E v = None"
  shows "registered v s'"
proof -
  from assms obtain i s1 s2 where 1: "addSymbol (Symbol v) s = Inr (i, s1)"
    and 2: "emplace_back p (LOAD_SYMBOL E) s1 = Inr s2" and 3: "pushNumber i (Some p) s2 = Inr s'"
    by (auto simp: compileSymbol_def rbind_eq_Inr)
  from addSymbol_registers [OF 1] have "registered v s1" by simp
  then have "registered v s2" using emplace_back_extends [OF 2] by (rule registered_extends)
  then show ?thesis using pushNumber_extends [OF 3] by (rule registered_extends)
qed

lemma compileFunction_captures_registers:
  "compileFunction_captures E args p s = Inr s' \<Longrightarrow> Capture v \<in> set args \<Longrightarrow> registered v s'"
proof (induction args arbitrary: s)
  case Nil
  then show ?case by simp
next
  case (Cons it rest)
  show ?case
  proof (cases "nodeType it = NT_Capture")
    case True
    with Cons.prems obtain name s1 var_id s2 s3 where n: "node_string it = Inr name"
      and 1: "emplace_back p (CAPTURE E) s = Inr s1"
      and 2: "addSymbol it (addDefinedSymbol name s1) = Inr (var_id, s2)"
      and 3: "pushNumber var_id (Some p) s2 = Inr s3"
      and 4: "compileFunction_captures E rest p s3 = Inr s'"
      by (auto simp: rbind_eq_Inr split: if_splits)
    show ?thesis
    proof (cases "it = Capture v")
      case True
      with addSymbol_registers [OF 2] have "registered v s2" by simp
      then have "registered v s3" using pushNumber_extends [OF 3] by (rule registered_extends)
      then show ?thesis using compileFunction_captures_extends [OF 4]
        by (rule registered_extends)
    next
      case False
      with Cons.prems(2) have "Capture v \<in> set rest" by simp
      with 4 show ?thesis by (rule Cons.IH)
    qed
  next
    case False
    with Cons.prems have "compileFunction_captures E rest p s = Inr s'" "Capture v \<in> set rest"
      by auto
    then show ?thesis by (rule Cons.IH)
  qed
qed

lemma compile_range_lowers:
  "compile_range E x i k p s = Inr s' \<Longrightarrow> i \<le> j \<Longrightarrow> j < k \<Longrightarrow>
   lowered_in E (constList x ! j) s'"
proof (induction "k - i" arbitrary: i s)
  case 0
  then show ?case by simp
next
  case (Suc n)
  then have lt: "i < k" by simp
  from Suc.prems(1) lt obtain c s1 where c: "vec_at (constList x) i = Inr c"
    and 1: "compile_node E c p s = Inr s1"
    and 2: "compile_range E x (i + 1) k p s1 = Inr s'"
    by (rule compile_range_Inr)
  show ?case
  proof (cases "j = i")
    case True
    with c have "c = constList x ! j" by (simp add: vec_at_eq_Inr)
    with 1 have "compile_node E (constList x ! j) p s = Inr s1" by simp
    then show ?thesis using compile_range_ext [OF 2] by (rule lowered_inI_extends)
  next
    case False
    with Suc.prems have "i + 1 \<le> j" by simp
    with Suc.hyps(1) [of "i + 1" s1] Suc.hyps(2) 2 Suc.prems(3) show ?thesis by simp
  qed
qed

lemma handleCalls_fields_lowers:
  "handleCalls_fields E x n0 pp s = Inr (n, s') \<Longrightarrow> n0 \<le> j \<Longrightarrow> j < n \<Longrightarrow>
   lowered_in E (constList x ! j) s'"
proof (induction "length (constList x) - n0" arbitrary: n0 s)
  case 0
  then show ?case by (simp add: handleCalls_fields.simps [of E x n0])
next
  case (Suc m)
  then have lt: "n0 < length (constList x)" by simp
  from Suc.prems(1) show ?case
  proof (cases rule: handleCalls_fields_Inr)
    case stop
    with Suc.prems show ?thesis by simp
  next
    case (field c s1)
    show ?thesis
    proof (cases "j = n0")
      case True
      with field(1) have "c = constList x ! j" by (simp add: vec_at_eq_Inr)
      with field(3) have "compile_node E (constList x ! j) pp s = Inr s1" by simp
      then show ?thesis using handleCalls_fields_ext [OF field(4)]
        by (rule lowered_inI_extends)
    next
      case False
      with Suc.prems have "n0 + 1 \<le> j" by simp
      with Suc.hyps(1) [of "n0 + 1" s1] Suc.hyps(2) field(4) Suc.prems(3) show ?thesis by simp
    qed
  qed
qed

lemma handleCalls_fields_le:
  "handleCalls_fields E x n0 pp s = Inr (n, s') \<Longrightarrow> n0 \<le> n"
proof (induction "length (constList x) - n0" arbitrary: n0 s)
  case 0
  then show ?case by (simp add: handleCalls_fields.simps [of E x n0])
next
  case (Suc m)
  from Suc.prems(1) show ?case
  proof (cases rule: handleCalls_fields_Inr)
    case stop
    then show ?thesis by simp
  next
    case (field c s1)
    from field(1) have "n0 < length (constList x)" by (simp add: vec_at_eq_Inr)
    with Suc.hyps(2) have "m = length (constList x) - (n0 + 1)" by simp
    from Suc.hyps(1) [OF this field(4)] show ?thesis by simp
  qed
qed

lemma handleCalls_operator_lowers:
  "handleCalls_operator E x op_inst index exp_count p s = Inr (n', s') \<Longrightarrow> index \<le> j \<Longrightarrow>
   j < length (constList x) \<Longrightarrow> lowered_in E (constList x ! j) s'"
proof (induction "length (constList x) - index" arbitrary: index exp_count s)
  case 0
  then show ?case by simp
next
  case (Suc m)
  then have lt: "index < length (constList x)" by simp
  with Suc.prems(1) obtain c s1 s2 exp_count' where c: "vec_at (constList x) index = Inr c"
    and 1: "compile_node E c p s = Inr s1"
    and 2: "(if 2 \<le> exp_count' then emplace_back p op_inst s1 else Inr s1) = Inr s2"
    and 3: "handleCalls_operator E x op_inst (index + 1) exp_count' p s2 = Inr (n', s')"
    by (auto simp: handleCalls_operator.simps [of E x op_inst index] rbind_eq_Inr Let_def
        simp del: One_nat_def)
  show ?case
  proof (cases "j = index")
    case True
    with c have cj: "c = constList x ! j" by (simp add: vec_at_eq_Inr)
    have "extends s1 s2" using 2 by (auto split: if_splits dest: emplace_back_extends)
    then have "extends s1 s'" using handleCalls_operator_ext [OF 3] by (rule extends_trans)
    moreover from 1 cj have "compile_node E (constList x ! j) p s = Inr s1" by simp
    ultimately show ?thesis by (rule lowered_inI_extends [rotated])
  next
    case False
    with Suc.prems have "index + 1 \<le> j" by simp
    with Suc.hyps(1) [of "index + 1" exp_count' s2] Suc.hyps(2) 3 Suc.prems(3)
    show ?thesis by simp
  qed
qed

lemma compileSpecific_loop_lowers:
  "compileSpecific_loop E x i p s = Inr s' \<Longrightarrow> 1 \<le> j \<Longrightarrow> j \<le> i \<Longrightarrow>
   lowered_in E (constList x ! j) s'"
proof (induction i arbitrary: s rule: less_induct)
  case (less i)
  from less.prems have pos: "0 < i" by simp
  with less.prems(1) obtain jf s1 c s2 where jf: "skip_fields (constList x) i = Inr jf"
    and r1: "compile_range E x jf i p s = Inr s1"
    and c: "vec_at (constList x) i = Inr c"
    and r2: "compile_node E c p s1 = Inr s2"
    and nz: "jf \<noteq> 0" and r3: "compileSpecific_loop E x (jf - 1) p s2 = Inr s'"
    by (auto simp: compileSpecific_loop.simps [of E x i] rbind_eq_Inr split: if_splits)
  note e3 = compileSpecific_loop_ext [OF r3]
  consider (last) "j = i" | (range) "jf \<le> j" "j < i" | (before) "j < jf"
    using less.prems(3) by linarith
  then show ?case
  proof cases
    case last
    with c have "c = constList x ! j" by (simp add: vec_at_eq_Inr)
    with r2 have "compile_node E (constList x ! j) p s1 = Inr s2" by simp
    then show ?thesis using e3 by (rule lowered_inI_extends)
  next
    case range
    from compile_range_lowers [OF r1 range] have "lowered_in E (constList x ! j) s1" .
    moreover have "extends s1 s'"
      using compile_node_extends [OF r2] e3 by (rule extends_trans)
    ultimately show ?thesis by (rule lowered_in_extends)
  next
    case before
    with less.prems(2) have le: "j \<le> jf - 1" by simp
    from skip_fields_le [OF jf] nz pos have "jf - 1 < i" by simp
    from less.IH [OF this r3 less.prems(2) le] show ?thesis .
  qed
qed

lemma handleCalls_lowers:
  assumes r: "handleCalls E x p s = Inr s'" and j: "j < length (constList x)"
  shows "lowered_in E (constList x ! j) s'"
  using r
proof (cases rule: handleCalls_Inr)
  case (call c0 s1 n s2 proc s3 s4 s5 s6)
  from handleCalls_fields_le [OF call(3)] have n: "1 \<le> n" .
  have e5: "keeps_symbols s5 s'"
    using extends_symbols [OF emplace_back_extends [OF call(9)]]
      extends_symbols [OF pushNumber_extends [OF call(10)]] by (rule keeps_symbols_trans)
  have e3: "keeps_symbols s3 s'"
    using extends_symbols [OF push_temp_back_extends [OF call(7)]]
      temp_pop_back_symbols [OF call(8)] e5 by (rule keeps_symbols_trans3)
  have e2: "keeps_symbols s2 s'"
    using extends_symbols [OF compile_range_ext [OF call(6)]] e3 by (rule keeps_symbols_trans)
  consider (head) "j = 0" | (fields) "1 \<le> j" "j < n" | (rest) "n \<le> j" by linarith
  then show ?thesis
  proof cases
    case head
    with call(1) have "c0 = constList x ! j" by (simp add: vec_at_eq_Inr)
    with call(2) have "compile_node E (constList x ! j)
       (- int (length (m_temp_pages (emplace_temp_page s)))) (emplace_temp_page s) = Inr s1"
      by simp
    moreover have "keeps_symbols s1 s'"
      using extends_symbols [OF handleCalls_fields_ext [OF call(3)]] e2
      by (rule keeps_symbols_trans)
    ultimately show ?thesis by (rule lowered_inI)
  next
    case fields
    from handleCalls_fields_lowers [OF call(3) fields] have "lowered_in E (constList x ! j) s2" .
    then show ?thesis using e2 by (rule lowered_in_mono)
  next
    case rest
    from compile_range_lowers [OF call(6) rest j] have "lowered_in E (constList x ! j) s3" .
    then show ?thesis using e3 by (rule lowered_in_mono)
  qed
next
  case (operator c0 s1 n s2 proc op_inst s3 exp_count s4)
  from handleCalls_fields_le [OF operator(3)] have n: "1 \<le> n" .
  have e4: "keeps_symbols s4 s'"
    using operator(9) by (auto split: if_splits dest!: emplace_back_extends extends_symbols)
  have e2: "keeps_symbols s2 s'"
    using temp_pop_back_symbols [OF operator(7)]
      extends_symbols [OF handleCalls_operator_ext [OF operator(8)]] e4
    by (rule keeps_symbols_trans3)
  consider (head) "j = 0" | (fields) "1 \<le> j" "j < n" | (rest) "n \<le> j" by linarith
  then show ?thesis
  proof cases
    case head
    with operator(1) have "c0 = constList x ! j" by (simp add: vec_at_eq_Inr)
    with operator(2) have "compile_node E (constList x ! j)
       (- int (length (m_temp_pages (emplace_temp_page s)))) (emplace_temp_page s) = Inr s1"
      by simp
    moreover have "keeps_symbols s1 s'"
      using extends_symbols [OF handleCalls_fields_ext [OF operator(3)]] e2
      by (rule keeps_symbols_trans)
    ultimately show ?thesis by (rule lowered_inI)
  next
    case fields
    from handleCalls_fields_lowers [OF operator(3) fields]
    have "lowered_in E (constList x ! j) s2" .
    then show ?thesis using e2 by (rule lowered_in_mono)
  next
    case rest
    from handleCalls_operator_lowers [OF operator(8) rest j]
    have "lowered_in E (constList x ! j) s4" .
    then show ?thesis using e4 by (rule lowered_in_mono)
  qed
qed

lemma compileIf_lowers:
  assumes r: "compileIf E x p s = Inr s'"
  shows "lowered_in E (constList x ! 1) s'" and "lowered_in E (constList x ! 2) s'"
    and "length (constList x) = 4 \<Longrightarrow> lowered_in E (constList x ! 3) s'"
proof -
  from r obtain cond s1 s2 jump_to_if_pos s3 s4 s5 jump_to_end_pos s6 s7 thn s8 where
    c: "vec_at (constList x) 1 = Inr cond" and 1: "compile_node E cond p s = Inr s1"
    and 2: "emplace_back p (POP_JUMP_IF_TRUE E) s1 = Inr s2"
    and 3: "pushNumber 0 (Some p) s2 = Inr s3"
    and 4: "(if length (constList x) = 4
            then rbind (vec_at (constList x) 3) (\<lambda>els. compile_node E els p s3)
            else Inr s3) = Inr s4"
    and 5: "emplace_back p (JUMP E) s4 = Inr s5"
    and 6: "pushNumber 0 (Some p) s5 = Inr s6"
    and 7: "patch_jump p jump_to_if_pos s6 = Inr s7"
    and t: "vec_at (constList x) 2 = Inr thn" and 8: "compile_node E thn p s7 = Inr s8"
    and 9: "patch_jump p jump_to_end_pos s8 = Inr s'"
    by (rule compileIf_Inr)
  have e8: "keeps_symbols s8 s'" using 9 by (rule patch_jump_symbols)
  have e4: "keeps_symbols s4 s7"
    using extends_symbols [OF emplace_back_extends [OF 5]]
      extends_symbols [OF pushNumber_extends [OF 6]] patch_jump_symbols [OF 7]
    by (rule keeps_symbols_trans3)
  then have e4': "keeps_symbols s4 s'"
    using extends_symbols [OF compile_node_extends [OF 8]] e8 by (rule keeps_symbols_trans3)
  have e34: "keeps_symbols s3 s4"
    using 4 by (auto simp: rbind_eq_Inr split: if_splits dest!: compile_node_extends extends_symbols)
  have e1: "keeps_symbols s1 s4"
    using extends_symbols [OF emplace_back_extends [OF 2]]
      extends_symbols [OF pushNumber_extends [OF 3]] e34
    by (rule keeps_symbols_trans3)
  from c 1 have "compile_node E (constList x ! 1) p s = Inr s1" by (simp add: vec_at_eq_Inr)
  then show "lowered_in E (constList x ! 1) s'"
    using keeps_symbols_trans [OF e1 e4'] by (rule lowered_inI)
  from t 8 have "compile_node E (constList x ! 2) p s7 = Inr s8" by (simp add: vec_at_eq_Inr)
  then show "lowered_in E (constList x ! 2) s'" using e8 by (rule lowered_inI)
  assume "length (constList x) = 4"
  with 4 have "compile_node E (constList x ! 3) p s3 = Inr s4"
    by (auto simp: rbind_eq_Inr vec_at_eq_Inr)
  then show "lowered_in E (constList x ! 3) s'" using e4' by (rule lowered_inI)
qed

lemma compileWhile_lowers:
  assumes r: "compileWhile E x p s = Inr s'"
  shows "lowered_in E (constList x ! 1) s'" and "lowered_in E (constList x ! 2) s'"
proof -
  from r obtain current cond s1 s2 jump_to_end_pos s3 body s4 s5 s6 where
    c: "vec_at (constList x) 1 = Inr cond" and 1: "compile_node E cond p s = Inr s1"
    and 2: "emplace_back p (POP_JUMP_IF_FALSE E) s1 = Inr s2"
    and 3: "pushNumber 0 (Some p) s2 = Inr s3"
    and b: "vec_at (constList x) 2 = Inr body" and 4: "compile_node E body p s3 = Inr s4"
    and 5: "emplace_back p (JUMP E) s4 = Inr s5"
    and 6: "pushNumber (of_nat current) (Some p) s5 = Inr s6"
    and 7: "patch_jump p jump_to_end_pos s6 = Inr s'"
    by (rule compileWhile_Inr)
  have e4: "keeps_symbols s4 s'"
    using extends_symbols [OF emplace_back_extends [OF 5]]
      extends_symbols [OF pushNumber_extends [OF 6]] patch_jump_symbols [OF 7]
    by (rule keeps_symbols_trans3)
  have e1: "keeps_symbols s1 s4"
    using extends_symbols [OF emplace_back_extends [OF 2]]
      extends_symbols [OF pushNumber_extends [OF 3]]
      extends_symbols [OF compile_node_extends [OF 4]]
    by (rule keeps_symbols_trans3)
  from c 1 have "compile_node E (constList x ! 1) p s = Inr s1" by (simp add: vec_at_eq_Inr)
  then show "lowered_in E (constList x ! 1) s'"
    using keeps_symbols_trans [OF e1 e4] by (rule lowered_inI)
  from b 4 have "compile_node E (constList x ! 2) p s3 = Inr s4" by (simp add: vec_at_eq_Inr)
  then show "lowered_in E (constList x ! 2) s'" using e4 by (rule lowered_inI)
qed

lemma compileFunction_lowers:
  assumes r: "compileFunction E x p s = Inr s'"
  shows "lowered_in E (constList x ! 2) s'"
    and "\<exists>args s1. vec_at (constList x) 1 = Inr args \<and>
           compileFunction_captures E (constList args) p s = Inr s1 \<and> keeps_symbols s1 s'"
proof -
  from r obtain args s1 s3 ident s4 s5 s6 body s7 where
    ar: "vec_at (constList x) 1 = Inr args"
    and 1: "compileFunction_captures E (constList args) p s = Inr s1"
    and 2: "emplace_back p (LOAD_CONST E) (emplace_page s1) = Inr s3"
    and 3: "addValue_page (length (m_code_pages s1)) x s3 = Inr (ident, s4)"
    and 4: "pushNumber ident (Some p) s4 = Inr s5"
    and 5: "compileFunction_args E (constList args) (length (m_code_pages s1)) s5 = Inr s6"
    and bd: "vec_at (constList x) 2 = Inr body"
    and 7: "compile_node E body (int (length (m_code_pages s1))) s6 = Inr s7"
    and 8: "emplace_back (int (length (m_code_pages s1))) (RET E) s7 = Inr s'"
    by (rule compileFunction_Inr)
  have e7: "keeps_symbols s7 s'" using emplace_back_extends [OF 8] by (rule extends_symbols)
  from bd 7 have "compile_node E (constList x ! 2) (int (length (m_code_pages s1))) s6 = Inr s7"
    by (simp add: vec_at_eq_Inr)
  then show "lowered_in E (constList x ! 2) s'" using e7 by (rule lowered_inI)
  have a: "keeps_symbols s1 s4"
    using extends_symbols [OF emplace_page_extends]
      extends_symbols [OF emplace_back_extends [OF 2]]
      extends_symbols [OF addValue_page_extends [OF 3]]
    by (rule keeps_symbols_trans3)
  have b: "keeps_symbols s4 s7"
    using extends_symbols [OF pushNumber_extends [OF 4]]
      extends_symbols [OF compileFunction_args_extends [OF 5]]
      extends_symbols [OF compile_node_extends [OF 7]]
    by (rule keeps_symbols_trans3)
  from a b e7 have "keeps_symbols s1 s'" by (rule keeps_symbols_trans3)
  with ar 1 show "\<exists>args s1. vec_at (constList x) 1 = Inr args \<and>
           compileFunction_captures E (constList args) p s = Inr s1 \<and> keeps_symbols s1 s'"
    by blast
qed

lemma compileQuote_lowers:
  assumes r: "compileQuote E x p s = Inr s'"
  shows "lowered_in E (constList x ! 1) s'"
proof -
  from r obtain c1 s1 s2 ident s3 s4 where
    c: "vec_at (constList x) 1 = Inr c1"
    and 1: "compile_node E c1 (int (length (m_code_pages s))) (emplace_page s) = Inr s1"
    and 2: "emplace_back (int (length (m_code_pages s))) (RET E) s1 = Inr s2"
    and 3: "addValue_page (length (m_code_pages s)) x s2 = Inr (ident, s3)"
    and 4: "emplace_back p (LOAD_CONST E) s3 = Inr s4"
    and 5: "pushNumber ident (Some p) s4 = Inr s'"
    by (rule compileQuote_Inr)
  have "keeps_symbols s1 s3"
    using extends_symbols [OF emplace_back_extends [OF 2]]
      extends_symbols [OF addValue_page_extends [OF 3]]
    by (rule keeps_symbols_trans)
  then have e: "keeps_symbols s1 s'"
    using extends_symbols [OF emplace_back_extends [OF 4]]
      extends_symbols [OF pushNumber_extends [OF 5]]
    by (rule keeps_symbols_trans3)
  from c 1 have "compile_node E (constList x ! 1) (int (length (m_code_pages s)))
      (emplace_page s) = Inr s1"
    by (simp add: vec_at_eq_Inr)
  then show ?thesis using e by (rule lowered_inI)
qed

lemma putValue_lowers:
  "putValue E x p s = Inr s' \<Longrightarrow> 2 \<le> j \<Longrightarrow> j < length (constList x) \<Longrightarrow>
   lowered_in E (constList x ! j) s'"
  by (simp add: putValue.simps compile_range_lowers)

lemma compileLetMut_lowers:
  assumes r: "compileLetMut E n x p s = Inr s'" and j: "2 \<le> j" "j < length (constList x)"
  shows "lowered_in E (constList x ! j) s'"
proof -
  from r obtain c1 name i s1 s2 s3 where
    2: "putValue E x p (addDefinedSymbol name s1) = Inr s2"
    and 3: "emplace_back p (if n = K_Let then LET E else MUT E) s2 = Inr s3"
    and 4: "pushNumber i (Some p) s3 = Inr s'"
    by (rule compileLetMut_Inr)
  have "extends s2 s'"
    using emplace_back_extends [OF 3] pushNumber_extends [OF 4] by (rule extends_trans)
  with putValue_lowers [OF 2 j] show ?thesis by (rule lowered_in_extends)
qed

lemma compileSet_lowers:
  assumes r: "compileSet E x p s = Inr s'"
  shows "2 \<le> j \<Longrightarrow> j < length (constList x) \<Longrightarrow> lowered_in E (constList x ! j) s'"
    and "node_string (constList x ! 1) = Inr v \<Longrightarrow> registered v s'"
proof -
  from r obtain c1 i s1 s2 s3 where
    c: "vec_at (constList x) 1 = Inr c1"
    and 1: "addSymbol c1 s = Inr (i, s1)" and 2: "putValue E x p s1 = Inr s2"
    and 3: "emplace_back p (STORE E) s2 = Inr s3" and 4: "pushNumber i (Some p) s3 = Inr s'"
    by (rule compileSet_Inr)
  have e: "extends s2 s'"
    using emplace_back_extends [OF 3] pushNumber_extends [OF 4] by (rule extends_trans)
  {
    assume "2 \<le> j" "j < length (constList x)"
    from putValue_lowers [OF 2 this] e show "lowered_in E (constList x ! j) s'"
      by (rule lowered_in_extends)
  }
  assume "node_string (constList x ! 1) = Inr v"
  with c have "node_string c1 = Inr v" by (simp add: vec_at_eq_Inr)
  with 1 have "registered v s1" by (rule addSymbol_registers)
  moreover have "extends s1 s'" using putValue_ext [OF 2] e by (rule extends_trans)
  ultimately show "registered v s'" by (rule registered_extends)
qed

lemma compileDel_registers:
  assumes r: "compileDel E x p s = Inr s'" and v: "node_string (constList x ! 1) = Inr v"
  shows "registered v s'"
proof -
  from r obtain c1 i s1 s2 where c: "vec_at (constList x) 1 = Inr c1"
    and 1: "addSymbol c1 s = Inr (i, s1)"
    and 2: "emplace_back p (DEL E) s1 = Inr s2" and 3: "pushNumber i (Some p) s2 = Inr s'"
    by (auto simp: compileDel_def rbind_eq_Inr)
  from c v have "node_string c1 = Inr v" by (simp add: vec_at_eq_Inr)
  with 1 have "registered v s1" by (rule addSymbol_registers)
  moreover have "extends s1 s'"
    using emplace_back_extends [OF 2] pushNumber_extends [OF 3] by (rule extends_trans)
  ultimately show ?thesis by (rule registered_extends)
qed

lemma compileSpecific_lowers:
  assumes r: "compileSpecific E c0 x p s = Inr s'"
    and len: "length (constList x) \<le> 65536" and j: "1 \<le> j" "j < length (constList x)"
  shows "lowered_in E (constList x ! j) s'"
proof -
  from r obtain name inst s1 s2 where
    1: "compileSpecific_loop E x (unat (of_nat (length (constList x)) - 1 :: u16)) p s = Inr s1"
    and 2: "emplace_back p inst s1 = Inr s2"
    and 3: "pushSpecificInstArgc E inst (of_nat (countArkObjects (constList x)) - 1) p s2 = Inr s'"
    by (rule compileSpecific_Inr)
  from j obtain m where m: "length (constList x) = Suc m" by (cases "length (constList x)") auto
  with len have "m < 65536" by simp
  then have "unat (of_nat m :: u16) = m" by (simp add: unat_of_nat)
  moreover have "(of_nat (Suc m) - 1 :: u16) = of_nat m" by simp
  ultimately have "unat (of_nat (length (constList x)) - 1 :: u16) = length (constList x) - 1"
    unfolding m by simp
  with 1 have "compileSpecific_loop E x (length (constList x) - 1) p s = Inr s1" by simp
  from compileSpecific_loop_lowers [OF this j(1)] j(2)
  have "lowered_in E (constList x ! j) s1" by simp
  moreover have "extends s1 s'"
    using emplace_back_extends [OF 2] pushSpecificInstArgc_extends [OF 3] by (rule extends_trans)
  ultimately show ?thesis by (rule lowered_in_extends)
qed

lemma uses_registered:
  "uses E x v \<Longrightarrow> compile_node E x p s = Inr s' \<Longrightarrow> registered v s'"
proof (induction arbitrary: p s s' rule: uses.induct)
  case (uses_Symbol v)
  then show ?case by (simp add: compile_node.simps compileSymbol_registers)
next
  case (uses_Begin c cs v)
  let ?x = "List (Keyword K_Begin # cs)"
  from uses_Begin.prems have r: "compile_range E ?x 1 (length cs + 1) p s = Inr s'"
    by (simp add: compile_node_keyword)
  from uses_Begin.hyps(1) obtain j where j: "j < length cs" "c = cs ! j"
    by (auto simp: in_set_conv_nth)
  from compile_range_lowers [OF r, of "j + 1"] j have "lowered_in E c s'" by simp
  then show ?case by (rule lowered_in_registered) (rule uses_Begin.IH)
next
  case (uses_value k c cs v c1)
  let ?x = "List (Keyword k # c1 # cs)"
  from uses_value.hyps(2) obtain j where j: "j < length cs" "c = cs ! j"
    by (auto simp: in_set_conv_nth)
  have "lowered_in E (constList ?x ! (j + 2)) s'"
  proof (cases "k = K_Set")
    case True
    with uses_value.prems have "compileSet E ?x p s = Inr s'"
      by (simp add: compile_node_keyword)
    from compileSet_lowers(1) [OF this, of "j + 2"] j show ?thesis by simp
  next
    case False
    with uses_value.hyps(1) uses_value.prems have "compileLetMut E k ?x p s = Inr s'"
      by (auto simp: compile_node_keyword)
    from compileLetMut_lowers [OF this, of "j + 2"] j show ?thesis by simp
  qed
  with j have "lowered_in E c s'" by simp
  then show ?case by (rule lowered_in_registered) (rule uses_value.IH)
next
  case (uses_target k c1 v cs)
  let ?x = "List (Keyword k # c1 # cs)"
  show ?case
  proof (cases "k = K_Set")
    case True
    with uses_target.prems have "compileSet E ?x p s = Inr s'"
      by (simp add: compile_node_keyword)
    from compileSet_lowers(2) [OF this, of v] uses_target.hyps(2) show ?thesis by simp
  next
    case False
    with uses_target.hyps(1) uses_target.prems have "compileDel E ?x p s = Inr s'"
      by (auto simp: compile_node_keyword)
    from compileDel_registers [OF this, of v] uses_target.hyps(2) show ?thesis by simp
  qed
next
  case (uses_If_cond c v cs)
  from uses_If_cond.prems have "compileIf E (List (Keyword K_If # c # cs)) p s = Inr s'"
    by (simp add: compile_node_keyword)
  from compileIf_lowers(1) [OF this] have "lowered_in E c s'" by simp
  then show ?case by (rule lowered_in_registered) (rule uses_If_cond.IH)
next
  case (uses_If_then t v c cs)
  from uses_If_then.prems have "compileIf E (List (Keyword K_If # c # t # cs)) p s = Inr s'"
    by (simp add: compile_node_keyword)
  from compileIf_lowers(2) [OF this] have "lowered_in E t s'" by simp
  then show ?case by (rule lowered_in_registered) (rule uses_If_then.IH)
next
  case (uses_If_else e v c t)
  from uses_If_else.prems have "compileIf E (List [Keyword K_If, c, t, e]) p s = Inr s'"
    by (simp add: compile_node_keyword)
  from compileIf_lowers(3) [OF this] have "lowered_in E e s'" by simp
  then show ?case by (rule lowered_in_registered) (rule uses_If_else.IH)
next
  case (uses_While_cond c v cs)
  from uses_While_cond.prems have "compileWhile E (List (Keyword K_While # c # cs)) p s = Inr s'"
    by (simp add: compile_node_keyword)
  from compileWhile_lowers(1) [OF this] have "lowered_in E c s'" by simp
  then show ?case by (rule lowered_in_registered) (rule uses_While_cond.IH)
next
  case (uses_While_body b v c cs)
  from uses_While_body.prems
  have "compileWhile E (List (Keyword K_While # c # b # cs)) p s = Inr s'"
    by (simp add: compile_node_keyword)
  from compileWhile_lowers(2) [OF this] have "lowered_in E b s'" by simp
  then show ?case by (rule lowered_in_registered) (rule uses_While_body.IH)
next
  case (uses_Fun_body b v args cs)
  from uses_Fun_body.prems
  have "compileFunction E (List (Keyword K_Fun # args # b # cs)) p s = Inr s'"
    by (simp add: compile_node_keyword)
  from compileFunction_lowers(1) [OF this] have "lowered_in E b s'" by simp
  then show ?case by (rule lowered_in_registered) (rule uses_Fun_body.IH)
next
  case (uses_Fun_capture v args cs)
  from uses_Fun_capture.prems
  have "compileFunction E (List (Keyword K_Fun # args # cs)) p s = Inr s'"
    by (simp add: compile_node_keyword)
  from compileFunction_lowers(2) [OF this] obtain s1 where
    1: "compileFunction_captures E (constList args) p s = Inr s1" and e: "keeps_symbols s1 s'"
    by (auto simp: vec_at_eq_Inr)
  from compileFunction_captures_registers [OF 1 uses_Fun_capture.hyps] e show ?case
    by (rule registered_mono)
next
  case (uses_Quote c v cs)
  from uses_Quote.prems have "compileQuote E (List (Keyword K_Quote # c # cs)) p s = Inr s'"
    by (simp add: compile_node_keyword)
  from compileQuote_lowers [OF this] have "lowered_in E c s'" by simp
  then show ?case by (rule lowered_in_registered) (rule uses_Quote.IH)
next
  case (uses_call c0 c cs v)
  from uses_call.prems uses_call.hyps(1,2) have r: "handleCalls E (List (c0 # cs)) p s = Inr s'"
    by (simp add: compile_node_call)
  from uses_call.hyps(3) obtain j where j: "j < length (c0 # cs)" "c = (c0 # cs) ! j"
    unfolding in_set_conv_nth by blast
  from handleCalls_lowers [OF r, of j] j have "lowered_in E c s'" by simp
  then show ?case by (rule lowered_in_registered) (rule uses_call.IH)
next
  case (uses_specific c0 cs c v)
  from uses_specific.prems uses_specific.hyps(1)
  have r: "compileSpecific E c0 (List (c0 # cs)) p s = Inr s'"
    by (simp add: compile_node_specific)
  from uses_specific.hyps(3) obtain j where j: "j < length cs" "c = cs ! j"
    by (auto simp: in_set_conv_nth)
  from compileSpecific_lowers [OF r, of "j + 1"] j uses_specific.hyps(2)
  have "lowered_in E c s'" by simp
  then show ?case by (rule lowered_in_registered) (rule uses_specific.IH)
qed

section \<open>The symbol table is idempotent\<close>

lemma find_symbol_name_only:
  "node_string symb2 = node_string symb \<Longrightarrow> find_symbol tbl symb2 = find_symbol tbl symb"
  by (induction tbl) (simp_all cong: if_cong)

lemma find_symbol_Some:
  "find_symbol tbl symb = Inr (Some i) \<Longrightarrow>
     i < length tbl \<and> node_string (tbl ! i) = node_string symb \<and> (\<exists>name. node_string symb = Inr name)"
proof (induction tbl arbitrary: i)
  case Nil
  then show ?case by simp
next
  case (Cons a tbl)
  then show ?case
    by (cases i) (auto simp: rbind_eq_Inr split: if_splits)
qed

lemma find_symbol_new:
  "node_string symb = Inr name \<Longrightarrow>
   \<forall>n \<in> set tbl. \<exists>a. node_string n = Inr a \<and> a \<noteq> name \<Longrightarrow>
   find_symbol tbl symb = Inr None"
  by (induction tbl) auto

lemma find_symbol_None:
  "find_symbol tbl symb = Inr None \<Longrightarrow> node_string symb = Inr name \<Longrightarrow>
   \<forall>n \<in> set tbl. \<exists>a. node_string n = Inr a \<and> a \<noteq> name"
  by (induction tbl) (auto simp: rbind_eq_Inr split: if_splits)

lemma find_symbol_appended:
  "node_string symb = Inr name \<Longrightarrow>
   \<forall>n \<in> set tbl. \<exists>a. node_string n = Inr a \<and> a \<noteq> name \<Longrightarrow>
   find_symbol (tbl @ [symb]) symb = Inr (Some (length tbl))"
  by (induction tbl) auto

lemma addSymbol_found:
  "find_symbol (m_symbols s) symb = Inr (Some i) \<Longrightarrow>
   addSymbol symb s = (if i < 65535 then Inr (of_nat i, s) else Inl (TooManySymbols symb))"
  by (simp add: addSymbol_def)

lemma addSymbol_new:
  "find_symbol (m_symbols s) symb = Inr None \<Longrightarrow>
   addSymbol symb s =
     (if length (m_symbols s) < 65535
      then Inr (of_nat (length (m_symbols s)), s\<lparr>m_symbols := m_symbols s @ [symb]\<rparr>)
      else Inl (TooManySymbols symb))"
  by (simp add: addSymbol_def)

lemma unat_u16_of_nat: "n < 65535 \<Longrightarrow> unat (of_nat n :: u16) = n"
  by (simp add: unat_of_nat)

lemma addSymbol_Inr:
  assumes "addSymbol symb s = Inr (i, s')"
  shows "(find_symbol (m_symbols s) symb = Inr (Some (unat i)) \<and> s' = s \<or>
          find_symbol (m_symbols s) symb = Inr None \<and> unat i = length (m_symbols s) \<and>
            s' = s\<lparr>m_symbols := m_symbols s @ [symb]\<rparr>) \<and> unat i < 65535"
  using assms
  by (auto simp: addSymbol_def rbind_eq_Inr Let_def unat_u16_of_nat split: option.splits if_splits)

text \<open>
  Claim C6. \<open>addSymbol\<close> is idempotent by name equality: after a call that returned the
  index \<open>i\<close>, a call with a node of the same name returns \<open>i\<close> again and leaves the
  compiler as it is; the index is below \<open>2\<^sup>1\<^sup>6\<close> and is the position of the name in the
  table. A name that the table does not hold is appended and gets the previous length of the
  table as its index, as long as that length is below 65535; when the table holds 65535
  names, the request for the 65536th is the error \<open>TooManySymbols\<close>.
\<close>

theorem addSymbol_idempotent:
  "(addSymbol symb s = Inr (i, s') \<longrightarrow> node_string symb = Inr name \<longrightarrow>
      node_string symb2 = Inr name \<longrightarrow>
        addSymbol symb2 s' = Inr (i, s') \<and> unat i < 2 ^ 16 \<and> unat i < length (m_symbols s') \<and>
        node_string (m_symbols s' ! unat i) = Inr name) \<and>
   (node_string symb = Inr name \<longrightarrow>
      (\<forall>n \<in> set (m_symbols s). \<exists>a. node_string n = Inr a \<and> a \<noteq> name) \<longrightarrow>
        (length (m_symbols s) < 65535 \<longrightarrow>
           addSymbol symb s =
             Inr (of_nat (length (m_symbols s)), s\<lparr>m_symbols := m_symbols s @ [symb]\<rparr>) \<and>
           unat (of_nat (length (m_symbols s)) :: u16) = length (m_symbols s)) \<and>
        (length (m_symbols s) = 65535 \<longrightarrow> addSymbol symb s = Inl (TooManySymbols symb)))"
proof (intro conjI impI)
  assume a: "addSymbol symb s = Inr (i, s')" and n: "node_string symb = Inr name"
    and n2: "node_string symb2 = Inr name"
  from addSymbol_Inr [OF a] have lt: "unat i < 65535" by simp
  have f: "find_symbol (m_symbols s') symb = Inr (Some (unat i))"
    using addSymbol_Inr [OF a] n
    by (auto dest: find_symbol_None [where name = name] simp: find_symbol_appended)
  then have f2: "find_symbol (m_symbols s') symb2 = Inr (Some (unat i))"
    using find_symbol_name_only [of symb2 symb] n n2 by simp
  show "addSymbol symb2 s' = Inr (i, s')"
    using addSymbol_found [OF f2] lt by simp
  show "unat i < 2 ^ 16" using lt by simp
  show "unat i < length (m_symbols s')" using find_symbol_Some [OF f] by simp
  show "node_string (m_symbols s' ! unat i) = Inr name" using find_symbol_Some [OF f] n by simp
next
  assume n: "node_string symb = Inr name"
    and new: "\<forall>n \<in> set (m_symbols s). \<exists>a. node_string n = Inr a \<and> a \<noteq> name"
  have f: "find_symbol (m_symbols s) symb = Inr None" by (rule find_symbol_new [OF n new])
  { assume "length (m_symbols s) < 65535"
    then show "addSymbol symb s =
        Inr (of_nat (length (m_symbols s)), s\<lparr>m_symbols := m_symbols s @ [symb]\<rparr>)"
      using addSymbol_new [OF f] by simp
  }
  { assume "length (m_symbols s) < 65535"
    then show "unat (of_nat (length (m_symbols s)) :: u16) = length (m_symbols s)"
      by (rule unat_u16_of_nat)
  }
  { assume "length (m_symbols s) = 65535"
    then show "addSymbol symb s = Inl (TooManySymbols symb)"
      using addSymbol_new [OF f] by simp
  }
qed

lemma full_symbol_table_new:
  "\<forall>n \<in> set full_symbol_table. \<exists>a. node_string n = Inr a \<and> a \<noteq> ''b''"
  proof -
  have "replicate n CHR ''a'' \<noteq> ''b''" for n
    by (cases n) simp_all
  then show ?thesis by (auto simp: full_symbol_table_def)
qed

theorem addSymbol_idempotent_witness:
  "addSymbol (Symbol ''x'') (new_compiler\<lparr>m_symbols := [Symbol ''y'']\<rparr>) =
     Inr (1, new_compiler\<lparr>m_symbols := [Symbol ''y'', Symbol ''x'']\<rparr>) \<and>
   addSymbol (GetField ''x'') (new_compiler\<lparr>m_symbols := [Symbol ''y'', Symbol ''x'']\<rparr>) =
     Inr (1, new_compiler\<lparr>m_symbols := [Symbol ''y'', Symbol ''x'']\<rparr>) \<and>
   addSymbol (Symbol ''b'') (new_compiler\<lparr>m_symbols := full_symbol_table\<rparr>) =
     Inl (TooManySymbols (Symbol ''b''))"
proof -
  let ?s = "new_compiler\<lparr>m_symbols := [Symbol ''y'']\<rparr>"
  let ?s' = "new_compiler\<lparr>m_symbols := [Symbol ''y'', Symbol ''x'']\<rparr>"
  have 1: "addSymbol (Symbol ''x'') ?s = Inr (1, ?s')"
    using addSymbol_idempotent [of "Symbol ''x''" ?s 0 ?s "''x''" "Symbol ''x''"]
    by (simp add: new_compiler_def)
  have 2: "addSymbol (GetField ''x'') ?s' = Inr (1, ?s')"
    using addSymbol_idempotent [of "Symbol ''x''" ?s 1 ?s' "''x''" "GetField ''x''"] 1
    by simp
  have 3: "addSymbol (Symbol ''b'') (new_compiler\<lparr>m_symbols := full_symbol_table\<rparr>) =
     Inl (TooManySymbols (Symbol ''b''))"
    using addSymbol_idempotent [of "Symbol ''b''" "new_compiler\<lparr>m_symbols := full_symbol_table\<rparr>"
        0 "new_compiler" "''b''" "Symbol ''b''"] full_symbol_table_new
    by (simp add: full_symbol_table_def)
  from 1 2 3 show ?thesis by simp
qed

section \<open>The check for undefined symbols\<close>

lemma checkForUndefinedSymbol_loop_find:
  "\<forall>n \<in> set tbl. \<exists>a. node_string n = Inr a \<Longrightarrow>
   checkForUndefinedSymbol_loop E tbl s =
     (case find (unbound_node E s) tbl of
        None \<Rightarrow> Inr ()
      | Some n \<Rightarrow> Inl (UnboundVariable n))"
proof (induction tbl)
  case Nil
  then show ?case by simp
next
  case (Cons n tbl)
  from Cons.prems obtain a where a: "node_string n = Inr a" by auto
  have "unbound_node E s n \<longleftrightarrow> a \<notin> set (m_defined_symbols s) \<and> \<not> mayBeFromPlugin E a s"
    using a by (auto simp: unbound_node_def unbound_name_def mayBeFromPlugin_def
        splitString_first_def)
  with Cons a show ?case by (simp add: Let_def)
qed

lemma checkForUndefinedSymbol_loop_fails:
  "n \<in> set tbl \<Longrightarrow> unbound_node E s n \<Longrightarrow> \<exists>e. checkForUndefinedSymbol_loop E tbl s = Inl e"
proof (induction tbl)
  case Nil
  then show ?case by simp
next
  case (Cons a tbl)
  show ?case
  proof (cases "node_string a")
    case (Inl e)
    then show ?thesis by (simp add: rbind_def)
  next
    case (Inr str)
    then have u: "unbound_node E s a \<longleftrightarrow>
        str \<notin> set (m_defined_symbols s) \<and> \<not> mayBeFromPlugin E str s"
      by (auto simp: unbound_node_def unbound_name_def mayBeFromPlugin_def
          splitString_first_def)
    show ?thesis
    proof (cases "unbound_node E s a")
      case True
      with u Inr show ?thesis by (simp add: Let_def)
    next
      case False
      with Cons.prems have "n \<in> set tbl" by auto
      from Cons.IH [OF this Cons.prems(2)] False u Inr show ?thesis by (simp add: Let_def)
    qed
  qed
qed

lemma use_unbound:
  assumes u: "uses E ast v" and b: "v \<notin> set (binder_names ast)"
    and d: "v \<notin> set (m_defined_symbols s0)"
    and pl: "\<forall>plugin \<in> set (m_plugins s0) \<union> set (imported_plugins ast).
       stem E plugin \<noteq> takeWhile (\<lambda>c. c \<noteq> CHR '':'') v"
    and r: "compile_node E ast 0 (emplace_page (pushHeadersPhase1 E s0)) = Inr s"
  shows "registered v s" and "unbound_name E s v"
proof -
  from u r show "registered v s" by (rule uses_registered)
  let ?s1 = "emplace_page (pushHeadersPhase1 E s0)"
  have "keeps_within (set (binder_names ast)) (set (imported_plugins ast)) ?s1 s"
    using r by (intro compile_node_keeps) auto
  moreover have "m_defined_symbols ?s1 = m_defined_symbols s0" "m_plugins ?s1 = m_plugins s0"
    by (simp_all add: emplace_page_def pushHeadersPhase1_def)
  ultimately have "set (m_defined_symbols s) \<subseteq> set (m_defined_symbols s0) \<union> set (binder_names ast)"
    and "set (m_plugins s) \<subseteq> set (m_plugins s0) \<union> set (imported_plugins ast)"
    by (simp_all add: keeps_within_def)
  with b d pl show "unbound_name E s v"
    unfolding unbound_name_def by blast
qed

lemma use_unbound_fails:
  assumes u: "uses E ast v" and b: "v \<notin> set (binder_names ast)"
    and d: "v \<notin> set (m_defined_symbols s0)"
    and pl: "\<forall>plugin \<in> set (m_plugins s0) \<union> set (imported_plugins ast).
       stem E plugin \<noteq> takeWhile (\<lambda>c. c \<noteq> CHR '':'') v"
  shows "\<exists>e. compile E ast s0 = Inl e"
proof (cases "compile_node E ast 0 (emplace_page (pushHeadersPhase1 E s0))")
  case (Inl e)
  then show ?thesis by (simp add: compile_def Let_def)
next
  case (Inr s)
  from use_unbound [OF u b d pl Inr] obtain n where "n \<in> set (m_symbols s)"
    "unbound_node E s n"
    by (auto simp: registered_def unbound_node_def)
  then have "\<exists>e. checkForUndefinedSymbol E s = Inl e"
    unfolding checkForUndefinedSymbol_def by (rule checkForUndefinedSymbol_loop_fails)
  with Inr show ?thesis by (auto simp: compile_def Let_def)
qed

text \<open>
  Claim C5. On a symbol table whose entries hold names, \<open>checkForUndefinedSymbol\<close> fails if
  and only if some name of the table is unbound (not in the set of defined symbols, and its
  prefix before the first colon is the stem of no plugin); the failure is the error
  \<open>UnboundVariable\<close> with the first such node of the table, and \<open>compile\<close> fails with it
  when the lowering leaves such a table. A program \<open>ast\<close> that uses a variable \<open>v\<close> which
  it binds by no \<^verbatim>\<open>let\<close>, \<^verbatim>\<open>mut\<close> or parameter, which is not defined before, and whose
  prefix is the stem of no plugin, imported by the program or before, does not compile:
  \<open>compile\<close> fails, and when the lowering succeeds it has registered \<open>v\<close> in the symbol table
  and left it unbound, so that the failure is the one of \<open>checkForUndefinedSymbol\<close>.
\<close>

theorem checkForUndefinedSymbol_iff:
  assumes "\<forall>n \<in> set (m_symbols s). \<exists>a. node_string n = Inr a"
  shows "((\<exists>e. checkForUndefinedSymbol E s = Inl e) \<longleftrightarrow>
            (\<exists>n \<in> set (m_symbols s). unbound_node E s n)) \<and>
         (\<forall>e. checkForUndefinedSymbol E s = Inl e \<longrightarrow>
            (\<exists>n \<in> set (m_symbols s). e = UnboundVariable n \<and> unbound_node E s n \<and>
               find (unbound_node E s) (m_symbols s) = Some n)) \<and>
         (\<forall>ast s0.
            compile_node E ast 0 (emplace_page (pushHeadersPhase1 E s0)) = Inr s \<longrightarrow>
            (\<exists>n \<in> set (m_symbols s). unbound_node E s n) \<longrightarrow>
            (\<exists>n \<in> set (m_symbols s). compile E ast s0 = Inl (UnboundVariable n) \<and>
               unbound_node E s n)) \<and>
         (\<forall>ast s0 v.
            uses E ast v \<longrightarrow> v \<notin> set (binder_names ast) \<longrightarrow>
            v \<notin> set (m_defined_symbols s0) \<longrightarrow>
            (\<forall>plugin \<in> set (m_plugins s0) \<union> set (imported_plugins ast).
               stem E plugin \<noteq> takeWhile (\<lambda>c. c \<noteq> CHR '':'') v) \<longrightarrow>
            (\<exists>e. compile E ast s0 = Inl e) \<and>
            (compile_node E ast 0 (emplace_page (pushHeadersPhase1 E s0)) = Inr s \<longrightarrow>
               registered v s \<and> unbound_name E s v \<and>
               (\<exists>n \<in> set (m_symbols s). compile E ast s0 = Inl (UnboundVariable n) \<and>
                  unbound_node E s n)))"
proof -
  note r = checkForUndefinedSymbol_loop_find [OF assms, of E s]
  have 1: "(\<exists>e. checkForUndefinedSymbol E s = Inl e) \<longleftrightarrow>
            (\<exists>n \<in> set (m_symbols s). unbound_node E s n)"
    unfolding checkForUndefinedSymbol_def r
    by (auto simp: find_None_iff find_Some_iff split: option.splits)
  have 2: "\<exists>n \<in> set (m_symbols s). e = UnboundVariable n \<and> unbound_node E s n \<and>
               find (unbound_node E s) (m_symbols s) = Some n"
    if "checkForUndefinedSymbol E s = Inl e" for e
    using that unfolding checkForUndefinedSymbol_def r
    by (auto simp: find_Some_iff split: option.splits)
  have 3: "\<exists>n \<in> set (m_symbols s). compile E ast s0 = Inl (UnboundVariable n) \<and>
               unbound_node E s n"
    if l: "compile_node E ast 0 (emplace_page (pushHeadersPhase1 E s0)) = Inr s"
      and u: "\<exists>n \<in> set (m_symbols s). unbound_node E s n" for ast s0
  proof -
    from u 1 obtain e where e: "checkForUndefinedSymbol E s = Inl e" by blast
    from 2 [OF e] obtain n where n: "n \<in> set (m_symbols s)" "e = UnboundVariable n"
      "unbound_node E s n" by blast
    have "compile E ast s0 = Inl (UnboundVariable n)"
      using l e n(2) by (simp add: compile_def Let_def)
    with n show ?thesis by blast
  qed
  have 4: "(\<exists>e. compile E ast s0 = Inl e) \<and>
            (compile_node E ast 0 (emplace_page (pushHeadersPhase1 E s0)) = Inr s \<longrightarrow>
               registered v s \<and> unbound_name E s v \<and>
               (\<exists>n \<in> set (m_symbols s). compile E ast s0 = Inl (UnboundVariable n) \<and>
                  unbound_node E s n))"
    if u: "uses E ast v" and b: "v \<notin> set (binder_names ast)"
      and d: "v \<notin> set (m_defined_symbols s0)"
      and pl: "\<forall>plugin \<in> set (m_plugins s0) \<union> set (imported_plugins ast).
         stem E plugin \<noteq> takeWhile (\<lambda>c. c \<noteq> CHR '':'') v" for ast s0 v
  proof (intro conjI impI)
    from u b d pl show "\<exists>e. compile E ast s0 = Inl e" by (rule use_unbound_fails)
    assume l: "compile_node E ast 0 (emplace_page (pushHeadersPhase1 E s0)) = Inr s"
    from use_unbound [OF u b d pl l] show reg: "registered v s" and ub: "unbound_name E s v" .
    then have "\<exists>n \<in> set (m_symbols s). unbound_node E s n"
      by (auto simp: registered_def unbound_node_def)
    with l show "\<exists>n \<in> set (m_symbols s). compile E ast s0 = Inl (UnboundVariable n) \<and>
                  unbound_node E s n"
      by (rule 3)
  qed
  from 1 2 3 4 show ?thesis by blast
qed

lemma unbound_program_lowered:
  "compile_node example_env unbound_program 0 (emplace_page (pushHeadersPhase1 example_env new_compiler)) =
     Inr \<lparr>m_symbols = [Symbol ''a'', Symbol ''b''], m_defined_symbols = [''a''],
          m_plugins = [], m_values = [Val_Number 1, Val_PageAddr 1],
          m_code_pages = [[2, 0, 0, 5, 0, 0, 2, 0, 1], [1, 0, 1, 8]],
          m_temp_pages = [],
          m_bytecode = [97, 114, 107, 0, 0, 3, 0, 0, 0, 15, 0, 0, 0, 0, 95, 94, 16, 0]\<rparr>"
  by (simp add: unbound_program_def compile_simps prim_defs header_defs example_env_def
      new_compiler_def cong: rbind_weak_cong)

lemma unbound_program_uses: "uses example_env unbound_program ''b''"
  unfolding unbound_program_def
  by (rule uses_Begin [where c = "List [Keyword K_Fun, List [], Symbol ''b'']"], simp,
      rule uses_Fun_body, rule uses_Symbol)
     (simp_all add: isBuiltin_def isOperator_def example_env_def)

theorem checkForUndefinedSymbol_iff_witness:
  "uses example_env unbound_program ''b'' \<and> ''b'' \<notin> set (binder_names unbound_program) \<and>
   compile example_env unbound_program new_compiler = Inl (UnboundVariable (Symbol ''b''))"
proof -
  let ?s = "\<lparr>m_symbols = [Symbol ''a'', Symbol ''b''], m_defined_symbols = [''a''],
          m_plugins = [], m_values = [Val_Number 1, Val_PageAddr 1],
          m_code_pages = [[2, 0, 0, 5, 0, 0, 2, 0, 1], [1, 0, 1, 8]],
          m_temp_pages = [],
          m_bytecode = [97, 114, 107, 0, 0, 3, 0, 0, 0, 15, 0, 0, 0, 0, 95, 94, 16, 0]\<rparr>"
  have h: "\<forall>n \<in> set (m_symbols ?s). \<exists>a. node_string n = Inr a" by simp
  have a: "\<not> unbound_node example_env ?s (Symbol ''a'')"
    by (simp add: unbound_node_def unbound_name_def)
  have b: "''b'' \<notin> set (binder_names unbound_program)"
    by (simp add: unbound_program_def node_names_def)
  have d: "''b'' \<notin> set (m_defined_symbols new_compiler)"
    by (simp add: new_compiler_def)
  have pl: "\<forall>plugin \<in> set (m_plugins new_compiler) \<union> set (imported_plugins unbound_program).
      stem example_env plugin \<noteq> takeWhile (\<lambda>c. c \<noteq> CHR '':'') ''b''"
    by (simp add: new_compiler_def unbound_program_def)
  from checkForUndefinedSymbol_iff [OF h, of example_env]
  have "\<exists>n \<in> set (m_symbols ?s).
      compile example_env unbound_program new_compiler = Inl (UnboundVariable n) \<and>
      unbound_node example_env ?s n"
    using unbound_program_uses b d pl unbound_program_lowered by blast
  with a have "compile example_env unbound_program new_compiler =
      Inl (UnboundVariable (Symbol ''b''))"
    by auto
  with unbound_program_uses b show ?thesis by blast
qed

section \<open>The content hash\<close>

lemma length_timestamp_bytes [simp]: "length (timestamp_bytes t) = 8"
  by (simp add: timestamp_bytes_def)

lemma push_code_segments_append:
  "push_code_segments E pages b = b @ concat (map (code_segment E) pages)"
  by (induction pages arbitrary: b) simp_all

lemma pushHeadersPhase2_bytecode:
  "pushHeadersPhase2 E s = Inr s' \<Longrightarrow>
     \<exists>tables. m_bytecode s' = m_bytecode s @ tables \<and> m_code_pages s' = m_code_pages s"
  by (auto simp: pushHeadersPhase2_def rbind_eq_Inr)

text \<open>What \<open>compile\<close> returns, in terms of the state that the lowering left.\<close>

lemma compile_Inr:
  assumes "compile E ast s = Inr s'"
  obtains s2 tables b2 where
    "compile_node E ast 0 (emplace_page (pushHeadersPhase1 E s)) = Inr s2"
    "m_code_pages s' = m_code_pages s2"
    "m_code_pages s2 \<noteq> []"
    "b2 = m_bytecode s @ map of_char ''ark'' @ [0] @
          number_bytes (ARK_VERSION_MAJOR E) @ number_bytes (ARK_VERSION_MINOR E) @
          number_bytes (ARK_VERSION_PATCH E) @ timestamp_bytes (timestamp E) @ tables @
          concat (map (code_segment E) (m_code_pages s2))"
    "m_bytecode s' = take 18 b2 @ hash256 E (drop 18 b2) @ drop 18 b2"
proof -
  let ?s1 = "emplace_page (pushHeadersPhase1 E s)"
  from assms obtain s2 s3 where 2: "compile_node E ast 0 ?s1 = Inr s2"
    and 3: "pushHeadersPhase2 E s2 = Inr s3"
    and s': "s' = (let b2 = emit_code_segments E (m_code_pages s3) (m_bytecode s3);
              hash = hash256 E (drop header_size b2)
          in s3\<lparr>m_bytecode := take header_size b2 @ hash @ drop header_size b2\<rparr>)"
    by (auto simp: compile_def Let_def rbind_eq_Inr)
  from compile_node_extends [OF 2] have b: "m_bytecode s2 = m_bytecode ?s1"
    and "length (m_code_pages ?s1) \<le> length (m_code_pages s2)"
    by (simp_all add: extends_def)
  then have ne: "m_code_pages s2 \<noteq> []" by (auto simp: emplace_page_def)
  from pushHeadersPhase2_bytecode [OF 3] obtain tables where
    t: "m_bytecode s3 = m_bytecode s2 @ tables" and p: "m_code_pages s3 = m_code_pages s2"
    by blast
  let ?b2 = "emit_code_segments E (m_code_pages s3) (m_bytecode s3)"
  have b2: "?b2 = m_bytecode s @ map of_char ''ark'' @ [0] @
          number_bytes (ARK_VERSION_MAJOR E) @ number_bytes (ARK_VERSION_MINOR E) @
          number_bytes (ARK_VERSION_PATCH E) @ timestamp_bytes (timestamp E) @ tables @
          concat (map (code_segment E) (m_code_pages s2))"
    using ne by (simp add: emit_code_segments_def push_code_segments_append t p b
        emplace_page_def pushHeadersPhase1_def)
  have "m_code_pages s' = m_code_pages s2"
    and "m_bytecode s' = take 18 ?b2 @ hash256 E (drop 18 ?b2) @ drop 18 ?b2"
    by (simp_all add: s' Let_def p header_size_def)
  with 2 ne b2 show thesis
    by (intro that [of s2 ?b2 tables])
qed

lemma hash_inserted:
  assumes "18 \<le> length b2" and "length h = 32"
  shows "drop 50 (take 18 b2 @ h @ drop 18 b2) = drop 18 b2"
    and "take 32 (drop 18 (take 18 b2 @ h @ drop 18 b2)) = h"
    and "take 18 (take 18 b2 @ h @ drop 18 b2) = take 18 b2"
    and "50 \<le> length (take 18 b2 @ h @ drop 18 b2)"
  using assms by (simp_all add: min_absorb2)

lemma take_header:
  "length hdr = n \<Longrightarrow> take n (hdr @ rest) = hdr"
  by simp

text \<open>
  Claim C1. When \<open>compile\<close> returns and the digest that \<open>hash256\<close> computes has 32 bytes,
  the 32 bytes at the offsets 18 to 49 of the bytecode are the digest of the bytes from the
  offset 50 to the end; the bytecode of a compiler that was empty starts with the 18 bytes
  of the header.
\<close>

theorem compile_hash_matches:
  assumes "compile E ast s = Inr s'"
    and "\<forall>bs. length (hash256 E bs) = 32"
  shows "50 \<le> length (m_bytecode s') \<and>
         take 32 (drop 18 (m_bytecode s')) = hash256 E (drop 50 (m_bytecode s')) \<and>
         (m_bytecode s = [] \<longrightarrow>
            take 18 (m_bytecode s') = map of_char ''ark'' @ [0] @
              number_bytes (ARK_VERSION_MAJOR E) @ number_bytes (ARK_VERSION_MINOR E) @
              number_bytes (ARK_VERSION_PATCH E) @ timestamp_bytes (timestamp E))"
proof -
  from assms(1) obtain s2 tables b2 where
    "compile_node E ast 0 (emplace_page (pushHeadersPhase1 E s)) = Inr s2"
    "m_code_pages s' = m_code_pages s2"
    "m_code_pages s2 \<noteq> []"
    and b2: "b2 = m_bytecode s @ map of_char ''ark'' @ [0] @
          number_bytes (ARK_VERSION_MAJOR E) @ number_bytes (ARK_VERSION_MINOR E) @
          number_bytes (ARK_VERSION_PATCH E) @ timestamp_bytes (timestamp E) @ tables @
          concat (map (code_segment E) (m_code_pages s2))"
    and r: "m_bytecode s' = take 18 b2 @ hash256 E (drop 18 b2) @ drop 18 b2"
    by (rule compile_Inr)
  let ?hdr = "map of_char ''ark'' @ [0] @
              number_bytes (ARK_VERSION_MAJOR E) @ number_bytes (ARK_VERSION_MINOR E) @
              number_bytes (ARK_VERSION_PATCH E) @ timestamp_bytes (timestamp E)"
  have lh: "length ?hdr = 18" by simp
  have b2': "b2 = m_bytecode s @ ?hdr @ tables @ concat (map (code_segment E) (m_code_pages s2))"
    by (simp only: b2 append_assoc)
  have len: "18 \<le> length b2"
    by (simp add: b2)
  from assms(2) have h: "length (hash256 E (drop 18 b2)) = 32" by blast
  note hi = hash_inserted [OF len h, folded r]
  have 2: "take 32 (drop 18 (m_bytecode s')) = hash256 E (drop 50 (m_bytecode s'))"
    by (simp only: hi)
  have 3: "take 18 (m_bytecode s') = ?hdr" if "m_bytecode s = []"
  proof -
    from that have "b2 = ?hdr @ (tables @ concat (map (code_segment E) (m_code_pages s2)))"
      by (simp only: b2' append_Nil)
    then have "take 18 b2 = ?hdr" using take_header [OF lh] by simp
    with hi(3) show ?thesis by simp
  qed
  from hi(4) 2 3 show ?thesis by blast
qed

lemma let_program_compiled:
  "compile example_env let_program new_compiler =
     Inr \<lparr>m_symbols = [Symbol ''a''], m_defined_symbols = [''a''],
        m_plugins = [], m_values = [Val_String ''x''],
        m_code_pages = [[2, 0, 0, 5, 0, 0]], m_temp_pages = [],
        m_bytecode =
          [97, 114, 107, 0, 0, 3, 0, 0, 0, 15, 0, 0, 0, 0, 95, 94, 16, 0] @
          replicate 32 21 @
          [1, 0, 1, 97, 0, 2, 0, 1, 2, 120, 0, 3, 0, 7, 2, 0, 0, 5, 0, 0, 9]\<rparr>"
  by (simp add: compile_def let_program_def compile_simps prim_defs header_defs example_env_def
      new_compiler_def checkForUndefinedSymbol_def mayBeFromPlugin_def pushHeadersPhase2_def
      emit_code_segments_def code_segment_def header_size_def Let_def
      cong: rbind_weak_cong)

theorem compile_hash_matches_witness:
  "take 32 (drop 18
     ([97, 114, 107, 0, 0, 3, 0, 0, 0, 15, 0, 0, 0, 0, 95, 94, 16, 0] @ replicate 32 21 @
      [1, 0, 1, 97, 0, 2, 0, 1, 2, 120, 0, 3, 0, 7, 2, 0, 0, 5, 0, 0, 9])) =
   hash256 example_env [1, 0, 1, 97, 0, 2, 0, 1, 2, 120, 0, 3, 0, 7, 2, 0, 0, 5, 0, 0, 9]"
proof -
  have h: "\<forall>bs. length (hash256 example_env bs) = 32" by (simp add: example_env_def)
  from compile_hash_matches [OF let_program_compiled h] show ?thesis
    by (simp add: example_env_def)
qed

section \<open>Lowering a run of string literals\<close>

lemma set_page_set_page [simp]: "set_page p b (set_page p a s) = set_page p b s"
  by (simp add: set_page_def)

lemma m_values_set_page [simp]: "m_values (set_page p b s) = m_values s"
  by (simp add: set_page_def)

lemma number_bytes_0 [simp]: "number_bytes 0 = [0, 0]"
  by (simp add: number_bytes_def)

lemma compile_node_String_known:
  assumes "m_values s = Val_String t # vs" and "page p s = Inr bs"
  shows "compile_node E (String t) p s = Inr (set_page p (bs @ [LOAD_CONST E, 0, 0]) s)"
  using assms
  by (simp add: compile_node.simps addValue_def addValue_elem_def emplace_back_def
      pushNumber_def page_set_page)

lemma compile_range_Strings:
  assumes x: "\<forall>j. i0 \<le> j \<and> j < k \<longrightarrow> vec_at (constList x) j = Inr (String t)"
  shows "i0 \<le> i \<Longrightarrow> m_values s = Val_String t # vs \<Longrightarrow> page p s = Inr bs \<Longrightarrow>
    compile_range E x i k p s =
      Inr (set_page p (bs @ concat (replicate (k - i) [LOAD_CONST E, 0, 0])) s)"
proof (induction "k - i" arbitrary: i s bs)
  case 0
  then have "set_page p bs s = s"
    by (auto simp: set_page_def page_def vec_at_eq_Inr split: if_splits)
  with 0 show ?case by (simp add: compile_range.simps [of E x i k])
next
  case (Suc n)
  then have lt: "i < k" by simp
  with x Suc.prems have c: "vec_at (constList x) i = Inr (String t)" by simp
  let ?s1 = "set_page p (bs @ [LOAD_CONST E, 0, 0]) s"
  have 1: "compile_node E (String t) p s = Inr ?s1"
    using Suc.prems by (intro compile_node_String_known)
  have 2: "compile_range E x (i + 1) k p ?s1 =
      Inr (set_page p ((bs @ [LOAD_CONST E, 0, 0]) @
             concat (replicate (k - (i + 1)) [LOAD_CONST E, 0, 0])) ?s1)"
  proof (rule Suc.hyps(1))
    show "n = k - (i + 1)" using Suc.hyps(2) by simp
    show "i0 \<le> i + 1" using Suc.prems by simp
    show "m_values ?s1 = Val_String t # vs" using Suc.prems by simp
    show "page p ?s1 = Inr (bs @ [LOAD_CONST E, 0, 0])"
      using Suc.prems by (simp add: page_set_page)
  qed
  have 3: "k - i = Suc (k - (i + 1))" using lt by simp
  have "compile_range E x i k p s = compile_range E x (i + 1) k p ?s1"
    by (subst compile_range.simps) (simp add: lt c 1)
  also note 2
  also have "set_page p ((bs @ [LOAD_CONST E, 0, 0]) @
             concat (replicate (k - (i + 1)) [LOAD_CONST E, 0, 0])) ?s1 =
      set_page p (bs @ concat (replicate (k - i) [LOAD_CONST E, 0, 0])) s"
    by (simp add: 3)
  finally show ?case .
qed



section \<open>The code segments\<close>

lemma big_program_children:
  "\<forall>j. 2 \<le> j \<and> j < 21846 \<longrightarrow> vec_at (constList big_program) j = Inr (String ''a'')"
  by (auto simp: big_program_def vec_at_def nth_Cons')

lemma big_page: "[2, 0, 0] @ concat (replicate 21844 [2, 0, 0 :: u8]) = concat (replicate 21845 [2, 0, 0])"
proof -
  have "(21845 :: nat) = Suc 21844" by simp
  then show ?thesis by (simp only: replicate_Suc concat.simps)
qed

lemma big_program_lowered:
  "compile_node example_env big_program 0
     (emplace_page (pushHeadersPhase1 example_env new_compiler)) =
   Inr \<lparr>m_symbols = [], m_defined_symbols = [], m_plugins = [],
        m_values = [Val_String ''a''],
        m_code_pages = [concat (replicate 21845 [2, 0, 0])], m_temp_pages = [],
        m_bytecode = [97, 114, 107, 0, 0, 3, 0, 0, 0, 15, 0, 0, 0, 0, 95, 94, 16, 0]\<rparr>"
proof -
  let ?s1 = "\<lparr>m_symbols = [], m_defined_symbols = [], m_plugins = [],
        m_values = [], m_code_pages = [[]], m_temp_pages = [],
        m_bytecode = [97, 114, 107, 0, 0, 3, 0, 0, 0, 15, 0, 0, 0, 0, 95, 94, 16, 0 :: u8]\<rparr>"
  let ?s2 = "\<lparr>m_symbols = [], m_defined_symbols = [], m_plugins = [],
        m_values = [Val_String ''a''], m_code_pages = [[2, 0, 0]], m_temp_pages = [],
        m_bytecode = [97, 114, 107, 0, 0, 3, 0, 0, 0, 15, 0, 0, 0, 0, 95, 94, 16, 0 :: u8]\<rparr>"
  have s1: "emplace_page (pushHeadersPhase1 example_env new_compiler) = ?s1"
    by (simp add: emplace_page_def header_defs new_compiler_def example_env_def number_bytes_def)
  have len: "length (constList big_program) = 21846"
    by (simp add: big_program_def)
  have first: "compile_node example_env (String ''a'') 0 ?s1 = Inr ?s2"
    by (simp add: compile_node.simps prim_defs example_env_def cong: rbind_weak_cong)
  have c1: "vec_at (constList big_program) 1 = Inr (String ''a'')"
    by (simp add: big_program_def vec_at_def)
  have rest: "compile_range example_env big_program 2 21846 0 ?s2 =
      Inr (set_page 0 ([2, 0, 0] @ concat (replicate (21846 - 2) [LOAD_CONST example_env, 0, 0])) ?s2)"
    by (rule compile_range_Strings [OF big_program_children, where vs = "[]"])
      (simp_all add: page_def vec_at_def)
  have range: "compile_range example_env big_program 1 21846 0 ?s1 =
      Inr (set_page 0 (concat (replicate 21845 [2, 0, 0])) ?s2)"
    apply (subst compile_range.simps)
    apply (simp add: c1 first rest del: One_nat_def)
    apply (simp add: example_env_def big_page [simplified])
    done
  have "compile_node example_env big_program 0 ?s1 =
      compile_range example_env big_program 1 21846 0 ?s1"
    apply (subst compile_node.simps)
    apply (simp add: len)
    apply (simp add: big_program_def vec_at_def names_specific_def)
    done
  also note range
  finally show ?thesis
    by (simp add: s1 set_page_def)
qed


lemma big_page_length [simp]: "length (concat (replicate 21845 [2, 0, 0 :: u8])) = 65535"
  by (simp add: length_concat sum_list_replicate)

lemma big_program_compiled: "compile example_env big_program new_compiler = Inr big_result"
  unfolding compile_def Let_def big_program_lowered
  by (simp add: checkForUndefinedSymbol_def pushHeadersPhase2_def emit_code_segments_def
      code_segment_def header_size_def number_bytes_def big_result_def example_env_def)

text \<open>
  What \<open>compile\<close> does for every program: in the bytecode that it returns there is at
  least one page, and the bytecode ends with the code segments of the pages in their order,
  each the start byte, the two bytes of the length of the page plus one as a 16-bit number,
  most significant first, the bytes of the page and a \<^verbatim>\<open>HALT\<close>. Without a page, the single
  segment of length 1 that holds a \<^verbatim>\<open>HALT\<close> is emitted.
\<close>

lemma compile_code_segments:
  "(compile E ast s = Inr s' \<longrightarrow>
      m_code_pages s' \<noteq> [] \<and>
      (\<exists>front segs. m_bytecode s' = front @ concat segs \<and>
         list_all2 (segment_of E) segs (m_code_pages s'))) \<and>
   emit_code_segments E [] b = b @ [CODE_SEGMENT_START E, 0, 1, HALT E]"
proof (intro conjI impI)
  show "emit_code_segments E [] b = b @ [CODE_SEGMENT_START E, 0, 1, HALT E]"
    by (simp add: emit_code_segments_def number_bytes_def)
next
  assume c: "compile E ast s = Inr s'"
  then obtain s2 tables b2 where
    "compile_node E ast 0 (emplace_page (pushHeadersPhase1 E s)) = Inr s2"
    and p: "m_code_pages s' = m_code_pages s2"
    and ne: "m_code_pages s2 \<noteq> []"
    and b2: "b2 = m_bytecode s @ map of_char ''ark'' @ [0] @
          number_bytes (ARK_VERSION_MAJOR E) @ number_bytes (ARK_VERSION_MINOR E) @
          number_bytes (ARK_VERSION_PATCH E) @ timestamp_bytes (timestamp E) @ tables @
          concat (map (code_segment E) (m_code_pages s2))"
    and r: "m_bytecode s' = take 18 b2 @ hash256 E (drop 18 b2) @ drop 18 b2"
    by (rule compile_Inr)
  from ne p show "m_code_pages s' \<noteq> []" by simp
  let ?pre = "m_bytecode s @ map of_char ''ark'' @ [0] @
          number_bytes (ARK_VERSION_MAJOR E) @ number_bytes (ARK_VERSION_MINOR E) @
          number_bytes (ARK_VERSION_PATCH E) @ timestamp_bytes (timestamp E) @ tables"
  let ?segs = "map (code_segment E) (m_code_pages s2)"
  have b2': "b2 = ?pre @ concat ?segs" by (simp only: b2 append_assoc)
  have len: "18 \<le> length ?pre" by simp
  have d: "drop 18 b2 = drop 18 ?pre @ concat ?segs"
    unfolding b2' using len by (simp only: drop_append) simp
  define h where "h = hash256 E (drop 18 b2)"
  have "m_bytecode s' = take 18 b2 @ h @ drop 18 b2"
    by (simp only: r h_def)
  then have 1: "m_bytecode s' = (take 18 b2 @ h @ drop 18 ?pre) @ concat ?segs"
    by (simp only: d append_assoc)
  have 2: "list_all2 (segment_of E) ?segs (m_code_pages s')"
    by (simp add: p list_all2_map1 list_all2_same segment_of_code_segment)
  from 1 2 show "\<exists>front segs. m_bytecode s' = front @ concat segs \<and>
         list_all2 (segment_of E) segs (m_code_pages s')"
    by blast
qed

text \<open>
  Claim C7 says that the length of a code segment is the byte count of its page plus one.
  On \<open>big_program\<close>, a \<^verbatim>\<open>begin\<close> of 21845 string literals, \<open>compile\<close> returns
  \<open>big_result\<close>: the page holds 65535 bytes, its segment starts at the offset 59 of the
  bytecode, and the two bytes of the length, at the offsets 60 and 61, hold 0 and not 65536.
\<close>

theorem compile_big_program_segment_length:
  "compile example_env big_program new_compiler = Inr big_result \<and>
   length (m_code_pages big_result ! 0) + 1 = 65536 \<and>
   take 3 (drop 59 (m_bytecode big_result)) = [CODE_SEGMENT_START example_env, 0, 0] \<and>
   256 * unat (m_bytecode big_result ! 60) + unat (m_bytecode big_result ! 61) \<noteq>
     length (m_code_pages big_result ! 0) + 1"
proof -
  have 1: "length (m_code_pages big_result ! 0) + 1 = 65536"
    by (simp add: big_result_def)
  have 2: "take 3 (drop 59 (m_bytecode big_result)) = [CODE_SEGMENT_START example_env, 0, 0]"
    by (simp add: big_result_def example_env_def)
  have "m_bytecode big_result ! 60 = 0" "m_bytecode big_result ! 61 = 0"
    by (simp_all add: big_result_def nth_append)
  with 1 have 3: "256 * unat (m_bytecode big_result ! 60) + unat (m_bytecode big_result ! 61) \<noteq>
     length (m_code_pages big_result ! 0) + 1"
    by simp
  from big_program_compiled 1 2 3 show ?thesis by blast
qed

lemma compile_code_segments_big_program:
  "m_code_pages big_result \<noteq> [] \<and>
   (\<exists>front segs. m_bytecode big_result = front @ concat segs \<and>
      list_all2 (segment_of example_env) segs (m_code_pages big_result))"
  using compile_code_segments [of example_env big_program new_compiler big_result]
    big_program_compiled
  by blast

section \<open>Variable resolution\<close>





section \<open>Return from a call\<close>








section \<open>An operator with one argument\<close>

lemma handleCalls_operator_fields:
  assumes "\<forall>j. index < j \<and> j < length (constList x) \<longrightarrow> \<not> is_argument (constList x ! j)"
  shows "index < length (constList x) \<Longrightarrow>
    handleCalls_operator E x op_inst index 0 p s =
      rbind (compile_range E x index (length (constList x)) p s) (\<lambda>s'. Inr (1, s'))"
  using assms
proof (induction "length (constList x) - index" arbitrary: index s)
  case 0
  then show ?case by simp
next
  case (Suc m)
  let ?size = "length (constList x)"
  from Suc.prems have c: "vec_at (constList x) index = Inr (constList x ! index)"
    by (simp add: vec_at_def)
  show ?case
  proof (cases "index + 1 = ?size")
    case True
    then have "compile_range E x (index + 1) ?size p s1 = Inr s1"
      and "handleCalls_operator E x op_inst (index + 1) 1 p s1 = Inr (1, s1)" for s1
      by (simp_all add: compile_range_done handleCalls_operator_done)
    with True Suc.prems(1) c show ?thesis
      by (cases "compile_node E (constList x ! index) p s")
         (simp_all add: compile_range.simps [of E x index]
          handleCalls_operator.simps [of E x op_inst index] Let_def)
  next
    case False
    with Suc.prems(1) have lt: "index + 1 < ?size" by simp
    with Suc.prems(2) have na: "\<not> is_argument (constList x ! (index + 1))" by simp
    have IH: "handleCalls_operator E x op_inst (index + 1) 0 p s1 =
      rbind (compile_range E x (index + 1) ?size p s1) (\<lambda>s'. Inr (1, s'))" for s1
      using Suc.hyps(1) [of "index + 1" s1] Suc.hyps(2) lt Suc.prems(2) by simp
    from Suc.prems(1) c lt na False show ?thesis
      by (cases "compile_node E (constList x ! index) p s")
         (simp_all add: compile_range.simps [of E x index]
          handleCalls_operator.simps [of E x op_inst index] Let_def IH [simplified])
  qed
qed

text \<open>
  Claim C10. In the general call of an operator \<open>name\<close>, which is no builtin, with one
  argument \<open>a\<close>, followed by nodes \<open>fs\<close> that are fields or captures, \<open>handleCalls\<close> lowers
  \<open>a\<close> and \<open>fs\<close> in their order onto the page and then appends one byte, the opcode of the
  operator. Without \<open>fs\<close>, as in \<^verbatim>\<open>(not A)\<close>, the page then holds what it held after the
  lowering of \<open>a\<close>, followed by that byte.
\<close>

theorem handleCalls_unary_operator:
  assumes "isBuiltin E name = None" and "isOperator E name = Some i"
    and "is_argument a" and "\<forall>f \<in> set fs. \<not> is_argument f"
  shows "handleCalls E (List (Symbol name # a # fs)) p s =
           rbind (compile_range E (List (Symbol name # a # fs)) 1 (length fs + 2) p s)
             (\<lambda>s1. emplace_back p (FIRST_OPERATOR E + of_nat i) s1) \<and>
         handleCalls E (List [Symbol name, a]) p s =
           rbind (compile_node E a p s)
             (\<lambda>s1. emplace_back p (FIRST_OPERATOR E + of_nat i) s1) \<and>
         (\<forall>s'. handleCalls E (List [Symbol name, a]) p s = Inr s' \<longrightarrow>
            (\<exists>s1 bs. compile_node E a p s = Inr s1 \<and> page p s1 = Inr bs \<and>
               page p s' = Inr (bs @ [FIRST_OPERATOR E + of_nat i])))"
proof -
  have gen: "handleCalls E (List (Symbol name # a # fs)) p s =
           rbind (compile_range E (List (Symbol name # a # fs)) 1 (length fs + 2) p s)
             (\<lambda>s1. emplace_back p (FIRST_OPERATOR E + of_nat i) s1)"
    if fs: "\<forall>f \<in> set fs. \<not> is_argument f" for fs
  proof -
    let ?x = "List (Symbol name # a # fs)"
    let ?op = "FIRST_OPERATOR E + of_nat i"
    let ?s1 = "s\<lparr>m_temp_pages := m_temp_pages s @ [[?op]]\<rparr>"
    have 1: "compile_node E (Symbol name) (- int (length (m_temp_pages (emplace_temp_page s))))
        (emplace_temp_page s) = Inr ?s1"
      using assms(1,2)
      by (simp add: compile_node.simps compileSymbol_def emplace_temp_page_def emplace_back_def
          page_def set_page_def vec_at_def nth_append)
    from assms(3) have nf: "nodeType a \<noteq> NT_GetField" by (simp add: is_argument_def)
    then have 2: "handleCalls_fields E ?x 1 pp ?s1 = Inr (1, ?s1)" for pp
      by (subst handleCalls_fields.simps) (simp add: vec_at_def)
    have 3: "temp_back ?s1 = Inr [?op]" "temp_pop_back ?s1 = Inr s"
      by (simp_all add: temp_back_def temp_pop_back_def)
    have "\<forall>j. 1 < j \<and> j < length (constList ?x) \<longrightarrow> \<not> is_argument (constList ?x ! j)"
      using fs by (auto simp: nth_Cons' less_Suc_eq_0_disj)
    then have 4: "handleCalls_operator E ?x ?op 1 0 p s =
      rbind (compile_range E ?x 1 (length (constList ?x)) p s) (\<lambda>s'. Inr (1, s'))"
      by (intro handleCalls_operator_fields) simp_all
    show ?thesis
      unfolding handleCalls.simps [of E ?x p s] Let_def
      by (simp add: 1 2 [simplified] 3 4 [simplified] vec_at_def rbind_assoc rbind_return)
  qed
  from gen [of fs] assms(4) have A: "handleCalls E (List (Symbol name # a # fs)) p s =
           rbind (compile_range E (List (Symbol name # a # fs)) 1 (length fs + 2) p s)
             (\<lambda>s1. emplace_back p (FIRST_OPERATOR E + of_nat i) s1)"
    by simp
  have "compile_range E (List [Symbol name, a]) (Suc 0) (Suc (Suc 0)) p s = compile_node E a p s"
    by (cases "compile_node E a p s")
       (simp_all add: compile_range.simps [of E _ "Suc 0"] compile_range_done vec_at_def)
  with gen [of "[]"] have B: "handleCalls E (List [Symbol name, a]) p s =
           rbind (compile_node E a p s)
             (\<lambda>s1. emplace_back p (FIRST_OPERATOR E + of_nat i) s1)"
    by simp
  have C: "\<exists>s1 bs. compile_node E a p s = Inr s1 \<and> page p s1 = Inr bs \<and>
               page p s' = Inr (bs @ [FIRST_OPERATOR E + of_nat i])"
    if "handleCalls E (List [Symbol name, a]) p s = Inr s'" for s'
    using that unfolding B
    by (auto simp: rbind_eq_Inr emplace_back_eq_Inr page_set_page)
  from A B C show ?thesis by blast
qed

theorem handleCalls_unary_operator_witness:
  "handleCalls example_env (List [Symbol ''not'', Number 1]) 0 (emplace_page new_compiler) =
     Inr \<lparr>m_symbols = [], m_defined_symbols = [], m_plugins = [], m_values = [Val_Number 1],
          m_code_pages = [[2, 0, 0, 0x29]], m_temp_pages = [], m_bytecode = []\<rparr>"
proof -
  have "isBuiltin example_env ''not'' = None" "isOperator example_env ''not'' = Some 9"
    "is_argument (Number 1)" "\<forall>f \<in> set []. \<not> is_argument f"
    by (simp_all add: isBuiltin_def isOperator_def example_env_def is_argument_def)
  from handleCalls_unary_operator [OF this, of 0 "emplace_page new_compiler"]
  have "handleCalls example_env (List [Symbol ''not'', Number 1]) 0 (emplace_page new_compiler) =
    rbind (compile_node example_env (Number 1) 0 (emplace_page new_compiler))
      (\<lambda>s1. emplace_back 0 (FIRST_OPERATOR example_env + of_nat 9) s1)"
    by blast
  then show ?thesis
    by (simp add: compile_node.simps prim_defs example_env_def new_compiler_def
        cong: rbind_weak_cong)
qed

end
